theory Spec2Isabelle
  imports Complex_Main "HOL-Library.Word"
begin

unbundle bit_operations_syntax

section \<open>Data model and operations\<close>

subsection \<open>Dropping queue (backend/utils/queues.py)\<close>

text \<open>
  \<^verbatim>\<open>DroppingQueue\<close>: the deque is a list whose head is the oldest element
  (\<^verbatim>\<open>popleft\<close> removes the head, \<^verbatim>\<open>append\<close> adds at the end); the
  \<^verbatim>\<open>asyncio.Event\<close> is its flag.
\<close>

record 'a DroppingQueue =
  maxsize :: int
  queue :: "'a list"
  get_event :: bool
  dropped_count :: nat

definition DroppingQueue_init :: "int \<Rightarrow> 'a DroppingQueue" where
  "DroppingQueue_init m = \<lparr>maxsize = m, queue = [], get_event = False, dropped_count = 0\<rparr>"

text \<open>
  \<^verbatim>\<open>put_nowait\<close>. The \<^verbatim>\<open>popleft\<close> runs only under
  \<^verbatim>\<open>len(self._queue) >= self.maxsize > 0\<close>, so the deque is not empty there and
  \<^verbatim>\<open>popleft\<close> cannot raise.
\<close>

definition put_nowait :: "'a \<Rightarrow> 'a DroppingQueue \<Rightarrow> 'a DroppingQueue" where
  "put_nowait item q =
     (let q1 = (if maxsize q > 0 \<and> int (length (queue q)) \<ge> maxsize q
                then q\<lparr>queue := tl (queue q), dropped_count := dropped_count q + 1\<rparr>
                else q)
      in q1\<lparr>queue := queue q1 @ [item], get_event := True\<rparr>)"

text \<open>Putting the items of a list one after the other, with no consumer in between.\<close>

definition put_all :: "'a list \<Rightarrow> 'a DroppingQueue \<Rightarrow> 'a DroppingQueue" where
  "put_all xs q = fold put_nowait xs q"

text \<open>\<^verbatim>\<open>qsize\<close> and \<^verbatim>\<open>reset_dropped_count\<close>.\<close>

definition qsize :: "'a DroppingQueue \<Rightarrow> nat" where
  "qsize q = length (queue q)"

definition reset_dropped_count :: "'a DroppingQueue \<Rightarrow> 'a DroppingQueue" where
  "reset_dropped_count q = q\<lparr>dropped_count := 0\<rparr>"

text \<open>
  \<^verbatim>\<open>get\<close> at a moment when the queue is not empty (otherwise the coroutine waits
  for the event): \<open>None\<close> stands for "still waiting".
\<close>

definition get_ready :: "'a DroppingQueue \<Rightarrow> ('a \<times> 'a DroppingQueue) option" where
  "get_ready q = (case queue q of [] \<Rightarrow> None | x # rest \<Rightarrow> Some (x, q\<lparr>queue := rest\<rparr>))"

subsection \<open>Errors\<close>

text \<open>The exceptions the modelled code can raise.\<close>

datatype error = StructError | OverflowError | StopIteration | ValueError | KeyError

subsection \<open>Arrays and the store (numpy arrays are shared, mutable objects)\<close>

text \<open>
  A depth map is a 2-D \<^verbatim>\<open>numpy\<close> array: \<open>shape0\<close> rows, \<open>shape1\<close> columns, the
  entries in row-major order. Floating-point numbers are modelled as real numbers: every
  entry is finite, arithmetic is exact, and neither rounding nor overflow of the binary
  formats is represented.

  Arrays are objects that caller and callee share, so they live in a store and are passed
  by address. \<open>next_free\<close> is the first address never handed out.
\<close>

record ndarray =
  shape0 :: nat
  shape1 :: nat
  data :: "real list"

record heap =
  arrays :: "nat \<Rightarrow> ndarray"
  next_free :: nat

text \<open>\<^verbatim>\<open>ndarray.copy()\<close>: a new object with the same contents.\<close>

definition ndarray_copy :: "heap \<Rightarrow> nat \<Rightarrow> heap \<times> nat" where
  "ndarray_copy h a =
     (let c = next_free h
      in (h\<lparr>arrays := (arrays h)(c := arrays h a), next_free := c + 1\<rparr>, c))"

subsection \<open>Depth payload codec (backend/utils/packets.py)\<close>

type_synonym byte = "8 word"

text \<open>\<^verbatim>\<open>np.rint\<close>: to the nearest integer, a tie to the even neighbour.\<close>

definition rint :: "real \<Rightarrow> int" where
  "rint x =
     (let f = \<lfloor>x\<rfloor>; d = x - of_int f
      in if d < 1 / 2 then f
         else if 1 / 2 < d then f + 1
         else if even f then f else f + 1)"

text \<open>\<^verbatim>\<open>np.clip(a, lo, hi)\<close> is \<^verbatim>\<open>minimum(maximum(a, lo), hi)\<close> on every entry.\<close>

definition np_clip :: "real \<Rightarrow> real \<Rightarrow> real \<Rightarrow> real" where
  "np_clip lo hi x = min (max x lo) hi"

text \<open>The upper bound \<^verbatim>\<open>quantize_depth\<close> works with.\<close>

definition adjusted_z_max :: "real \<Rightarrow> real \<Rightarrow> real" where
  "adjusted_z_max z_min z_max = (if z_max \<le> z_min then z_min + 1 / 1000 else z_max)"

text \<open>
  \<^verbatim>\<open>quantize_depth\<close>. \<^verbatim>\<open>np.clip(..., out=depth)\<close> writes into the caller's array,
  so the store comes back changed at the array's address. The result is
  \<^verbatim>\<open>(encoded, scale, z_min)\<close>; \<^verbatim>\<open>astype("<u2")\<close> is \<open>word_of_int\<close> into 16 bits.
\<close>

definition quantize_depth ::
  "heap \<Rightarrow> nat \<Rightarrow> real \<Rightarrow> real \<Rightarrow> heap \<times> (16 word list \<times> real \<times> real)" where
  "quantize_depth h depth z_min z_max0 =
     (let z_max = adjusted_z_max z_min z_max0;
          sc = (z_max - z_min) / 65535;
          clipped = (arrays h depth)\<lparr>data := map (np_clip z_min z_max) (data (arrays h depth))\<rparr>;
          h' = h\<lparr>arrays := (arrays h)(depth := clipped)\<rparr>;
          normalized = map (\<lambda>d. (d - z_min) / sc) (data clipped);
          encoded = map (\<lambda>v. word_of_int (rint v)) normalized
      in (h', encoded, sc, z_min))"

text \<open>\<^verbatim>\<open>encoded.tobytes()\<close> for little-endian 16-bit pixels: low byte first.\<close>

definition tobytes :: "16 word list \<Rightarrow> byte list" where
  "tobytes ws = concat (map (\<lambda>w. [ucast w, ucast (drop_bit 8 w)]) ws)"

text \<open>
  The header, \<^verbatim>\<open>struct.Struct("<4sHHIIIfff")\<close>, as the record of its nine fields.
  The three \<^verbatim>\<open>f\<close> fields hold the real number that was packed: their rounding to
  binary32 is not modelled.
\<close>

record wire_header =
  hdr_magic :: "byte list"
  hdr_version :: "16 word"
  hdr_data_type :: "16 word"
  hdr_timestamp_ms :: "32 word"
  hdr_width :: "32 word"
  hdr_height :: "32 word"
  hdr_scale :: real
  hdr_bias :: real
  hdr_z_max :: real

definition HEADER_SIZE :: nat where
  "HEADER_SIZE = 32"

definition DATA_TYPE_UINT16 :: "16 word" where
  "DATA_TYPE_UINT16 = 1"

text \<open>
  What \<^verbatim>\<open>struct\<close> does with each argument. \<^verbatim>\<open>I\<close> raises \<^verbatim>\<open>struct.error\<close>
  unless \<open>0 \<le> v \<le> 2^32 - 1\<close>. \<^verbatim>\<open>f\<close> raises \<^verbatim>\<open>OverflowError\<close> when a finite
  argument rounds to an infinite binary32, that is from \<open>2^128 - 2^103\<close> on in absolute
  value. \<^verbatim>\<open>4s\<close> cuts or zero-pads to four bytes.
\<close>

definition pack_I :: "int \<Rightarrow> error + 32 word" where
  "pack_I v = (if 0 \<le> v \<and> v < 2 ^ 32 then Inr (word_of_int v) else Inl StructError)"

definition f32_limit :: real where
  "f32_limit = 2 ^ 128 - 2 ^ 103"

definition pack_f :: "real \<Rightarrow> error + real" where
  "pack_f x = (if \<bar>x\<bar> < f32_limit then Inr x else Inl OverflowError)"

definition pack_4s :: "byte list \<Rightarrow> byte list" where
  "pack_4s b = take 4 (b @ replicate 4 0)"

definition HEADER_STRUCT_pack ::
  "byte list \<Rightarrow> 16 word \<Rightarrow> 16 word \<Rightarrow> int \<Rightarrow> int \<Rightarrow> int \<Rightarrow> real \<Rightarrow> real \<Rightarrow> real
     \<Rightarrow> error + wire_header" where
  "HEADER_STRUCT_pack mg ver dt ts w h sc bs zm =
     (case pack_I ts of Inl e \<Rightarrow> Inl e | Inr ts' \<Rightarrow>
      case pack_I w of Inl e \<Rightarrow> Inl e | Inr w' \<Rightarrow>
      case pack_I h of Inl e \<Rightarrow> Inl e | Inr h' \<Rightarrow>
      case pack_f sc of Inl e \<Rightarrow> Inl e | Inr sc' \<Rightarrow>
      case pack_f bs of Inl e \<Rightarrow> Inl e | Inr bs' \<Rightarrow>
      case pack_f zm of Inl e \<Rightarrow> Inl e | Inr zm' \<Rightarrow>
        Inr \<lparr>hdr_magic = pack_4s mg, hdr_version = ver, hdr_data_type = dt,
             hdr_timestamp_ms = ts', hdr_width = w', hdr_height = h',
             hdr_scale = sc', hdr_bias = bs', hdr_z_max = zm'\<rparr>)"

text \<open>\<^verbatim>\<open>int(x)\<close> of a finite float: towards zero.\<close>

definition int_trunc :: "real \<Rightarrow> int" where
  "int_trunc x = (if 0 \<le> x then \<lfloor>x\<rfloor> else \<lceil>x\<rceil>)"

text \<open>
  \<^verbatim>\<open>DepthPayload\<close>. \<open>buffer\<close> is the header followed by the payload bytes, kept as the
  pair of the two.
\<close>

record DepthPayload =
  buffer :: "wire_header \<times> byte list"
  width :: nat
  height :: nat
  scale :: real
  bias :: real
  payload_z_max :: real

text \<open>The fields of \<^verbatim>\<open>Settings\<close> (backend/config.py) that the modelled code reads.\<close>

record Settings =
  video_cache_size :: int
  depth_process_res :: int
  depth_header_magic :: "byte list"
  depth_compression_level :: int

definition VDZ1 :: "byte list" where
  "VDZ1 = [0x56, 0x44, 0x5A, 0x31]"

definition VDZ2 :: "byte list" where
  "VDZ2 = [0x56, 0x44, 0x5A, 0x32]"

definition default_settings :: Settings where
  "default_settings = \<lparr>video_cache_size = 8, depth_process_res = 640,
     depth_header_magic = VDZ1, depth_compression_level = 0\<rparr>"

text \<open>
  \<^verbatim>\<open>pack_depth_payload\<close>. \<open>zlib_compress\<close> stands for
  \<^verbatim>\<open>zlib.compress(_, level=1)\<close>, a library function taken as a parameter. The store
  that comes back holds the clipped array also when packing the header raises, since the
  quantization has run by then.
\<close>

definition pack_depth_payload ::
  "(byte list \<Rightarrow> byte list) \<Rightarrow> Settings \<Rightarrow> heap \<Rightarrow> nat \<Rightarrow> real \<Rightarrow> real \<Rightarrow> real \<Rightarrow> bool
     \<Rightarrow> heap \<times> (error + DepthPayload)" where
  "pack_depth_payload zlib_compress settings h depth timestamp_ms z_min z_max compress =
     (case quantize_depth h depth z_min z_max of (h', encoded, sc, bs) \<Rightarrow>
        let raw_bytes = tobytes encoded;
            payload_bytes = (if compress then zlib_compress raw_bytes else raw_bytes);
            mg = (if compress then VDZ2 else depth_header_magic settings);
            arr = arrays h' depth
        in (h',
            case HEADER_STRUCT_pack mg 1 DATA_TYPE_UINT16 (int_trunc timestamp_ms)
                   (int (shape1 arr)) (int (shape0 arr)) sc bs z_max of
              Inl e \<Rightarrow> Inl e
            | Inr header \<Rightarrow>
                Inr \<lparr>buffer = (header, payload_bytes), width = shape1 arr,
                     height = shape0 arr, scale = sc, bias = bs, payload_z_max = z_max\<rparr>))"



text \<open>The pixels \<^verbatim>\<open>quantize_depth\<close> returns, named for the statements below.\<close>

definition encoded_pixels :: "heap \<Rightarrow> nat \<Rightarrow> real \<Rightarrow> real \<Rightarrow> 16 word list" where
  "encoded_pixels h a z_min z_max = fst (snd (quantize_depth h a z_min z_max))"

text \<open>A store with one 1 x 2 depth map at address 0, used by the examples.\<close>

definition example_heap :: heap where
  "example_heap = \<lparr>arrays = (\<lambda>_. \<lparr>shape0 = 1, shape1 = 2, data = [1 / 2, 3]\<rparr>), next_free = 1\<rparr>"


subsection \<open>Cached depth frames and the pipeline's packing step\<close>

text \<open>
  \<^verbatim>\<open>DepthFrame\<close> (backend/video/session.py); \<open>depth\<close> is the address of the frame's
  array in the store.
\<close>

record DepthFrame =
  timestamp_ms :: real
  depth :: nat
  frame_z_min :: real
  frame_z_max :: real

text \<open>
  The packing step of \<^verbatim>\<open>process_request_pipeline\<close> (backend/routers/stream.py), the
  same call in the cache-hit branch and after inference:
  \<^verbatim>\<open>pack_depth_payload(cached.depth.copy(), cached.timestamp_ms, cached.z_min,
  cached.z_max, compress=settings.depth_compression_level > 0)\<close>.
\<close>

definition pack_frame ::
  "(byte list \<Rightarrow> byte list) \<Rightarrow> Settings \<Rightarrow> heap \<Rightarrow> DepthFrame \<Rightarrow> heap \<times> (error + DepthPayload)" where
  "pack_frame zlib_compress settings h cached =
     (case ndarray_copy h (depth cached) of (h1, c) \<Rightarrow>
        pack_depth_payload zlib_compress settings h1 c (timestamp_ms cached)
          (frame_z_min cached) (frame_z_max cached) (0 < depth_compression_level settings))"

subsection \<open>Session state (backend/video/session.py)\<close>

text \<open>
  \<^verbatim>\<open>VideoSession\<close>, the fields the modelled methods touch. \<open>depth_buffer\<close> is the
  \<^verbatim>\<open>deque(maxlen=...)\<close>, oldest frame first, with its \<open>maxlen\<close> beside it. The two
  dicts are maps from keys to numbers. The per-session lock makes each method atomic, so a
  method is a function from the state before to the state after.
\<close>

record VideoSession =
  depth_buffer :: "DepthFrame list"
  depth_buffer_maxlen :: nat
  last_depth_time_ms :: "real option"
  telemetry :: "string \<rightharpoonup> real"
  rolling_stats :: "string \<rightharpoonup> real"
  quality_cooldown :: int

definition initial_rolling_stats :: "string \<rightharpoonup> real" where
  "initial_rolling_stats = map_of [(''depth_fps'', 0), (''latency_ms'', 0), (''infer_avg_s'', 0),
     (''queue_avg_s'', 0), (''ws_send_avg_s'', 0), (''drop_count'', 0)]"

text \<open>
  The dataclass defaults and \<^verbatim>\<open>__post_init__\<close>; \<^verbatim>\<open>deque(maxlen=n)\<close> raises
  \<^verbatim>\<open>ValueError\<close> for a negative \<open>n\<close>.
\<close>

definition VideoSession_init :: "Settings \<Rightarrow> error + VideoSession" where
  "VideoSession_init settings =
     (if video_cache_size settings < 0 then Inl ValueError
      else Inr \<lparr>depth_buffer = [], depth_buffer_maxlen = nat (video_cache_size settings),
                last_depth_time_ms = None, telemetry = Map.empty,
                rolling_stats = initial_rolling_stats, quality_cooldown = 0\<rparr>)"

text \<open>\<^verbatim>\<open>deque.append\<close> on a bounded deque: append, then drop the oldest if too long.\<close>

definition deque_append :: "nat \<Rightarrow> 'a \<Rightarrow> 'a list \<Rightarrow> 'a list" where
  "deque_append maxlen x xs = (let ys = xs @ [x] in if maxlen < length ys then tl ys else ys)"

definition store_depth_frame :: "DepthFrame \<Rightarrow> VideoSession \<Rightarrow> VideoSession" where
  "store_depth_frame frame s =
     s\<lparr>depth_buffer := deque_append (depth_buffer_maxlen s) frame (depth_buffer s),
       last_depth_time_ms := Some (timestamp_ms frame)\<rparr>"

text \<open>
  The scan of \<^verbatim>\<open>get_cached_depth\<close>, \<^verbatim>\<open>for idx in range(len - 1, -1, -1)\<close>:
  \<open>scan_from buf n\<close> looks at the indices \<open>n - 1, ..., 0\<close> and stops at the first
  frame within the tolerance.
\<close>

primrec scan_from :: "DepthFrame list \<Rightarrow> nat \<Rightarrow> real \<Rightarrow> real \<Rightarrow> nat option" where
  "scan_from buf 0 time_ms tolerance_ms = None"
| "scan_from buf (Suc idx) time_ms tolerance_ms =
     (if \<bar>timestamp_ms (buf ! idx) - time_ms\<bar> \<le> tolerance_ms then Some idx
      else scan_from buf idx time_ms tolerance_ms)"

text \<open>\<^verbatim>\<open>for _ in range(n): popleft()\<close>.\<close>

primrec popleft_times :: "nat \<Rightarrow> 'a list \<Rightarrow> 'a list" where
  "popleft_times 0 xs = xs"
| "popleft_times (Suc n) xs = popleft_times n (tl xs)"

definition get_cached_depth ::
  "real \<Rightarrow> real \<Rightarrow> bool \<Rightarrow> VideoSession \<Rightarrow> DepthFrame option \<times> VideoSession" where
  "get_cached_depth time_ms tolerance_ms drop_on_hit s =
     (case scan_from (depth_buffer s) (length (depth_buffer s)) time_ms tolerance_ms of
        None \<Rightarrow> (None, s)
      | Some idx \<Rightarrow>
          (Some (depth_buffer s ! idx),
           if drop_on_hit then s\<lparr>depth_buffer := popleft_times (idx + 1) (depth_buffer s)\<rparr>
           else s))"

text \<open>A sequence of cache operations on one session.\<close>

datatype cache_op = Store DepthFrame | Get real real bool

fun apply_cache_op :: "cache_op \<Rightarrow> VideoSession \<Rightarrow> VideoSession" where
  "apply_cache_op (Store frame) s = store_depth_frame frame s"
| "apply_cache_op (Get time_ms tolerance_ms drop_on_hit) s =
     snd (get_cached_depth time_ms tolerance_ms drop_on_hit s)"

definition apply_cache_ops :: "cache_op list \<Rightarrow> VideoSession \<Rightarrow> VideoSession" where
  "apply_cache_ops ops s = fold apply_cache_op ops s"

text \<open>A frame with a given timestamp and a fresh session with a cache of three frames, for the examples.\<close>

definition example_frame :: "real \<Rightarrow> DepthFrame" where
  "example_frame t = \<lparr>timestamp_ms = t, depth = 0, frame_z_min = 0, frame_z_max = 1\<rparr>"

definition example_session :: VideoSession where
  "example_session = \<lparr>depth_buffer = [], depth_buffer_maxlen = 3, last_depth_time_ms = None,
     telemetry = Map.empty, rolling_stats = initial_rolling_stats, quality_cooldown = 0\<rparr>"

definition example_cache :: VideoSession where
  "example_cache = apply_cache_ops [Store (example_frame 0), Store (example_frame 100),
     Store (example_frame 200), Store (example_frame 300)] example_session"

subsection \<open>Telemetry and the adaptive controller\<close>

text \<open>
  The loop of \<^verbatim>\<open>update_telemetry\<close> over \<^verbatim>\<open>metrics.items()\<close>; a metrics dict is
  the list of its items in iteration order. \<^verbatim>\<open>rolling_stats["drop_count"] += val\<close>
  raises \<^verbatim>\<open>KeyError\<close> on a missing key, \<^verbatim>\<open>rolling_stats.get(k, 0.0)\<close> does not.
\<close>

definition avg_key_of :: "string \<Rightarrow> string" where
  "avg_key_of key =
     (if key = ''queue_wait_s'' then ''queue_avg_s''
      else if 2 \<le> length key \<and> drop (length key - 2) key = ''_s''
      then take (length key - 2) key @ ''_avg_s''
      else key)"

fun update_rolling ::
  "real \<Rightarrow> (string \<times> real) list \<Rightarrow> (string \<rightharpoonup> real) \<Rightarrow> error + (string \<rightharpoonup> real)" where
  "update_rolling alpha [] rs = Inr rs"
| "update_rolling alpha ((key, val) # rest) rs =
     (if key = ''dropped'' then
        (case rs ''drop_count'' of
           None \<Rightarrow> Inl KeyError
         | Some d \<Rightarrow> update_rolling alpha rest (rs(''drop_count'' \<mapsto> d + val)))
      else if key \<in> set [''infer_s'', ''queue_wait_s'', ''ws_send_s'', ''decode_s''] then
        (let avg_key = avg_key_of key;
             current = (case rs avg_key of None \<Rightarrow> 0 | Some c \<Rightarrow> c)
         in update_rolling alpha rest
              (rs(avg_key \<mapsto> (if current = 0 then val else alpha * val + (1 - alpha) * current))))
      else if key \<in> set [''latency_ms'', ''depth_fps''] then
        (let current = (case rs key of None \<Rightarrow> 0 | Some c \<Rightarrow> c)
         in update_rolling alpha rest
              (rs(key \<mapsto> (if current = 0 then val else alpha * val + (1 - alpha) * current))))
      else update_rolling alpha rest rs)"

text \<open>
  The entry of \<open>rolling_stats\<close> that one item of the loop writes, read off the
  \<^verbatim>\<open>if\<close>/\<^verbatim>\<open>elif\<close> chain: none for a key the loop skips.
\<close>

definition rolling_target :: "string \<Rightarrow> string option" where
  "rolling_target key =
     (if key = ''dropped'' then Some ''drop_count''
      else if key \<in> set [''infer_s'', ''queue_wait_s'', ''ws_send_s'', ''decode_s'']
      then Some (avg_key_of key)
      else if key \<in> set [''latency_ms'', ''depth_fps''] then Some key
      else None)"

text \<open>The keys the loop handles, each with the entry it writes.\<close>

definition rolling_keys :: "(string \<times> string) list" where
  "rolling_keys = [(''dropped'', ''drop_count''), (''infer_s'', ''infer_avg_s''),
     (''queue_wait_s'', ''queue_avg_s''), (''ws_send_s'', ''ws_send_avg_s''),
     (''decode_s'', ''decode_avg_s''), (''latency_ms'', ''latency_ms''),
     (''depth_fps'', ''depth_fps'')]"

text \<open>
  The smoothing rule as the specification words it, to compare the code with:
  \<open>stat \<leftarrow> (stat == 0 ? sample : 0.1 * sample + 0.9 * stat)\<close>; a statistic that is not in
  the dict yet counts as 0.
\<close>

definition ema_rule :: "real option \<Rightarrow> real \<Rightarrow> real" where
  "ema_rule stat sample =
     (let current = (case stat of None \<Rightarrow> 0 | Some c \<Rightarrow> c)
      in if current = 0 then sample else (1 / 10) * sample + (9 / 10) * current)"

text \<open>The block after the loop: \<^verbatim>\<open>if "total_s" in metrics and metrics["total_s"] > 0\<close>.\<close>

definition update_fps ::
  "real \<Rightarrow> (string \<times> real) list \<Rightarrow> (string \<rightharpoonup> real) \<Rightarrow> (string \<rightharpoonup> real)" where
  "update_fps alpha metrics rs =
     (case map_of metrics ''total_s'' of
        None \<Rightarrow> rs
      | Some total_s \<Rightarrow>
          if 0 < total_s then
            (let fps_sample = 1 / total_s;
                 current_fps = (case rs ''depth_fps'' of None \<Rightarrow> 0 | Some c \<Rightarrow> c)
             in rs(''depth_fps'' \<mapsto> (if current_fps = 0 then fps_sample
                                       else alpha * fps_sample + (1 - alpha) * current_fps)))
          else rs)"

text \<open>
  \<^verbatim>\<open>adjust_quality\<close>. The ladder is filtered by the configured maximum and falls back
  to the maximum alone; \<^verbatim>\<open>min(steps, key=...)\<close> keeps the first of several nearest
  steps; \<^verbatim>\<open>steps.index\<close> is the first position. \<open>quality_steps\<close> is never empty, so
  neither \<^verbatim>\<open>min\<close> nor the indexing can raise.
\<close>

definition all_steps :: "int list" where
  "all_steps = [960, 720, 640, 512, 480, 384, 320]"

definition quality_steps :: "Settings \<Rightarrow> int list" where
  "quality_steps settings =
     (let max_res = depth_process_res settings;
          steps = filter (\<lambda>s. s \<le> max_res) all_steps
      in if steps = [] then [max_res] else steps)"

definition py_min_key :: "('a \<Rightarrow> int) \<Rightarrow> 'a list \<Rightarrow> 'a" where
  "py_min_key f xs = foldl (\<lambda>best x. if f x < f best then x else best) (hd xs) (tl xs)"

fun list_index :: "'a list \<Rightarrow> 'a \<Rightarrow> nat" where
  "list_index [] y = 0"
| "list_index (x # xs) y = (if x = y then 0 else Suc (list_index xs y))"

definition adjust_quality :: "Settings \<Rightarrow> VideoSession \<Rightarrow> VideoSession" where
  "adjust_quality settings s =
     (if 0 < quality_cooldown s then s\<lparr>quality_cooldown := quality_cooldown s - 1\<rparr>
      else
        let infer_avg = (case rolling_stats s ''infer_avg_s'' of None \<Rightarrow> 0 | Some v \<Rightarrow> v);
            queue_avg = (case rolling_stats s ''queue_avg_s'' of None \<Rightarrow> 0 | Some v \<Rightarrow> v);
            latency_ms = (case rolling_stats s ''latency_ms'' of None \<Rightarrow> 0 | Some v \<Rightarrow> v);
            stored = (case telemetry s ''quality_process_res'' of
                        None \<Rightarrow> real_of_int (depth_process_res settings) | Some v \<Rightarrow> v);
            tel = (telemetry s)(''quality_process_res'' \<mapsto> stored);
            current_res = int_trunc stored;
            steps = quality_steps settings;
            closest_step = py_min_key (\<lambda>x. \<bar>x - current_res\<bar>) steps;
            current_idx = list_index steps closest_step;
            new_idx =
              (if 1 / 5 < infer_avg \<or> 3 / 10 < queue_avg \<or> 500 < latency_ms then
                 (if int current_idx < int (length steps) - 1 then current_idx + 1
                  else current_idx)
               else if infer_avg < 2 / 25 \<and> queue_avg < 1 / 10 \<and> latency_ms < 200 then
                 (if 0 < current_idx then current_idx - 1 else current_idx)
               else current_idx);
            new_res = steps ! new_idx
        in if new_res \<noteq> current_res
           then s\<lparr>telemetry := tel(''quality_process_res'' \<mapsto> real_of_int new_res),
                  quality_cooldown := 60\<rparr>
           else s\<lparr>telemetry := tel\<rparr>)"

text \<open>\<^verbatim>\<open>update_telemetry\<close>, with \<open>alpha = 0.1\<close>.\<close>

definition update_telemetry ::
  "Settings \<Rightarrow> (string \<times> real) list \<Rightarrow> VideoSession \<Rightarrow> error + VideoSession" where
  "update_telemetry settings metrics s =
     (let alpha = 1 / 10;
          tel = telemetry s ++ map_of metrics
      in case update_rolling alpha metrics (rolling_stats s) of
           Inl e \<Rightarrow> Inl e
         | Inr rs \<Rightarrow>
             Inr (adjust_quality settings
                    (s\<lparr>telemetry := tel, rolling_stats := update_fps alpha metrics rs\<rparr>)))"

text \<open>One telemetry update after the other, stopping at the first that raises.\<close>

fun update_telemetry_all ::
  "Settings \<Rightarrow> (string \<times> real) list list \<Rightarrow> VideoSession \<Rightarrow> error + VideoSession" where
  "update_telemetry_all settings [] s = Inr s"
| "update_telemetry_all settings (metrics # rest) s =
     (case update_telemetry settings metrics s of
        Inl e \<Rightarrow> Inl e
      | Inr s' \<Rightarrow> update_telemetry_all settings rest s')"

text \<open>
  The resolution a pipeline task reads (backend/routers/stream.py):
  \<^verbatim>\<open>int(session.telemetry.get("quality_process_res", settings.depth_process_res))\<close>.
\<close>

definition process_res :: "Settings \<Rightarrow> VideoSession \<Rightarrow> int" where
  "process_res settings s =
     int_trunc (case telemetry s ''quality_process_res'' of
                  None \<Rightarrow> real_of_int (depth_process_res settings) | Some v \<Rightarrow> v)"

text \<open>A session whose \<open>depth_fps\<close> statistic already holds the value 5, for the examples.\<close>

definition example_fps_session :: VideoSession where
  "example_fps_session = example_session\<lparr>rolling_stats := initial_rolling_stats(''depth_fps'' \<mapsto> 5)\<rparr>"

text \<open>
  One step on a list of resolutions: from an entry to the entry right after it or right
  before it; \<open>no_or_unit_step\<close> also allows staying.
\<close>

definition unit_step :: "int list \<Rightarrow> int \<Rightarrow> int \<Rightarrow> bool" where
  "unit_step steps a b \<longleftrightarrow> (a, b) \<in> set (zip steps (tl steps)) \<or> (b, a) \<in> set (zip steps (tl steps))"

definition no_or_unit_step :: "int list \<Rightarrow> int \<Rightarrow> int \<Rightarrow> bool" where
  "no_or_unit_step steps a b \<longleftrightarrow> a = b \<or> unit_step steps a b"

text \<open>
  What every state of a session satisfies when no metrics dict carries the key
  \<open>quality_process_res\<close>: the \<open>drop_count\<close> entry exists, the cooldown is between 0 and
  60, and the stored resolution, once written, is an entry of \<open>quality_steps\<close>.
\<close>

definition controller_inv :: "Settings \<Rightarrow> VideoSession \<Rightarrow> bool" where
  "controller_inv settings s \<longleftrightarrow>
     rolling_stats s ''drop_count'' \<noteq> None
   \<and> 0 \<le> quality_cooldown s \<and> quality_cooldown s \<le> 60
   \<and> (case telemetry s ''quality_process_res'' of
        None \<Rightarrow> quality_cooldown s = 0
      | Some v \<Rightarrow> v \<in> real_of_int ` set (quality_steps settings))"

text \<open>
  A fresh session that receives a list of telemetry updates, and what is read off the
  session afterwards: the stored resolution, the resolution a pipeline task would use, and
  one rolling statistic after a single update.
\<close>

definition fresh_run :: "Settings \<Rightarrow> (string \<times> real) list list \<Rightarrow> error + VideoSession" where
  "fresh_run settings ms =
     (case VideoSession_init settings of
        Inl e \<Rightarrow> Inl e
      | Inr s0 \<Rightarrow> update_telemetry_all settings ms s0)"

definition stored_res_after :: "Settings \<Rightarrow> (string \<times> real) list list \<Rightarrow> error + real option" where
  "stored_res_after settings ms =
     (case fresh_run settings ms of
        Inl e \<Rightarrow> Inl e
      | Inr s \<Rightarrow> Inr (telemetry s ''quality_process_res''))"

definition process_res_after :: "Settings \<Rightarrow> (string \<times> real) list list \<Rightarrow> error + int" where
  "process_res_after settings ms =
     (case fresh_run settings ms of
        Inl e \<Rightarrow> Inl e
      | Inr s \<Rightarrow> Inr (process_res settings s))"

definition rolling_after ::
  "Settings \<Rightarrow> (string \<times> real) list \<Rightarrow> VideoSession \<Rightarrow> string \<Rightarrow> error + real option" where
  "rolling_after settings metrics s key =
     (case update_telemetry settings metrics s of
        Inl e \<Rightarrow> Inl e
      | Inr s' \<Rightarrow> Inr (rolling_stats s' key))"

text \<open>Two configurations whose \<open>depth_process_res\<close> is not a ladder entry.\<close>

definition settings_256 :: Settings where
  "settings_256 = default_settings\<lparr>depth_process_res := 256\<rparr>"

definition settings_700 :: Settings where
  "settings_700 = default_settings\<lparr>depth_process_res := 700\<rparr>"

subsection \<open>Frame decoder (backend/video/io.py, backend/utils/frame_info.py)\<close>





















subsection \<open>Streaming pipeline: processor and sender (backend/routers/stream.py)\<close>

text \<open>
  The coroutines of one connection run interleaved on one event loop; between two
  \<^verbatim>\<open>await\<close>s a coroutine runs alone. The model is a state of the connection and one
  event per such atomic piece; any order of events is a schedule. A request is the parsed
  client message.
\<close>

record Request =
  req_time_ms :: real
  req_rtt :: "real option"

text \<open>
  How a pipeline task ends: it returns \<^verbatim>\<open>(payload_bytes, timings)\<close> with
  \<^verbatim>\<open>payload_bytes\<close> possibly \<^verbatim>\<open>None\<close>, it raises, or it is cancelled. Which of
  these happens, and with which bytes, depends on the session and on timing; the model
  leaves it to the event.
\<close>

datatype outcome = Returned "byte list option" | Raised | Cancelled

datatype task_state = Pending | Done outcome

text \<open>
  The connection: the intake queue, the request the processor has dequeued and not yet
  turned into a task, the list of all requests it has dequeued, the tasks it has created
  (a task handle is its position in this list), the send queue of handles, the handle the
  sender is awaiting, whether the sender's loop is still running, the binary payloads
  written to the channel (each with the handle it came from), and the stop event.
\<close>

record connection =
  request_queue :: "Request DroppingQueue"
  held :: "Request option"
  dequeued :: "Request list"
  tasks :: "(Request \<times> task_state) list"
  send_queue :: "nat list"
  awaited :: "nat option"
  sender_running :: bool
  channel :: "(nat \<times> byte list) list"
  stop :: bool

definition connection_init :: connection where
  "connection_init =
     \<lparr>request_queue = DroppingQueue_init 32, held = None, dequeued = [], tasks = [],
      send_queue = [], awaited = None, sender_running = True, channel = [], stop = False\<rparr>"

definition MAX_CONCURRENT_TASKS :: nat where
  "MAX_CONCURRENT_TASKS = 16"

text \<open>\<^verbatim>\<open>len(active_tasks)\<close>: a task leaves the set when it is done.\<close>

definition active_tasks :: "connection \<Rightarrow> nat" where
  "active_tasks s = length (filter (\<lambda>t. snd t = Pending) (tasks s))"

text \<open>What the sender writes for a finished task: \<^verbatim>\<open>if payload_bytes:\<close> lets only non-empty bytes through.\<close>

fun payload_of :: "task_state \<Rightarrow> byte list option" where
  "payload_of (Done (Returned (Some b))) = (if b = [] then None else Some b)"
| "payload_of _ = None"

text \<open>
  The events. \<open>Receive\<close>: the receiver puts a request into the intake queue.
  \<open>Dequeue\<close>: the processor's \<^verbatim>\<open>request_queue.get()\<close> returns. \<open>Spawn\<close>: the
  processor, past the admission check, creates the task and puts its handle on the send
  queue. \<open>SessionGone\<close>: the processor finds no session, reports the error as a text
  message and sets stop. \<open>Complete\<close>: a pending task ends. \<open>SenderGet\<close>: the sender's
  \<^verbatim>\<open>send_queue.get()\<close> returns. \<open>SenderSend ok\<close>: the awaited task is done and the
  sender handles its result; \<open>ok\<close> tells whether \<^verbatim>\<open>send_bytes\<close> succeeded. \<open>Stop\<close>:
  somebody sets the stop event. An event that is not enabled leaves the state as it is.
\<close>

datatype event =
  Receive Request | Dequeue | Spawn | SessionGone | Complete nat outcome
  | SenderGet | SenderSend bool | Stop

fun step :: "event \<Rightarrow> connection \<Rightarrow> connection" where
  "step (Receive r) s =
     (if stop s then s else s\<lparr>request_queue := put_nowait r (request_queue s)\<rparr>)"
| "step Dequeue s =
     (if stop s \<or> held s \<noteq> None then s
      else case get_ready (request_queue s) of
             None \<Rightarrow> s
           | Some (r, q) \<Rightarrow> s\<lparr>request_queue := q, held := Some r, dequeued := dequeued s @ [r]\<rparr>)"
| "step Spawn s =
     (case held s of
        None \<Rightarrow> s
      | Some r \<Rightarrow>
          if MAX_CONCURRENT_TASKS \<le> active_tasks s then s
          else s\<lparr>held := None, tasks := tasks s @ [(r, Pending)],
                 send_queue := send_queue s @ [length (tasks s)]\<rparr>)"
| "step SessionGone s =
     (case held s of None \<Rightarrow> s | Some r \<Rightarrow> s\<lparr>held := None, stop := True\<rparr>)"
| "step (Complete i out) s =
     (if i < length (tasks s) \<and> snd (tasks s ! i) = Pending
      then s\<lparr>tasks := (tasks s)[i := (fst (tasks s ! i), Done out)]\<rparr>
      else s)"
| "step SenderGet s =
     (if stop s \<or> \<not> sender_running s \<or> awaited s \<noteq> None then s
      else case send_queue s of
             [] \<Rightarrow> s
           | i # rest \<Rightarrow> s\<lparr>send_queue := rest, awaited := Some i\<rparr>)"
| "step (SenderSend ok) s =
     (case awaited s of
        None \<Rightarrow> s
      | Some i \<Rightarrow>
          if \<not> sender_running s \<or> \<not> i < length (tasks s) then s
          else case snd (tasks s ! i) of
                 Pending \<Rightarrow> s
               | Done Raised \<Rightarrow> s\<lparr>awaited := None, stop := True\<rparr>
               | Done Cancelled \<Rightarrow> s\<lparr>awaited := None, sender_running := False\<rparr>
               | Done (Returned p) \<Rightarrow>
                   (case payload_of (Done (Returned p)) of
                      None \<Rightarrow> s\<lparr>awaited := None\<rparr>
                    | Some b \<Rightarrow>
                        if ok then s\<lparr>awaited := None, channel := channel s @ [(i, b)]\<rparr>
                        else s\<lparr>awaited := None, sender_running := False\<rparr>))"
| "step Stop s = s\<lparr>stop := True\<rparr>"

definition run :: "event list \<Rightarrow> connection \<Rightarrow> connection" where
  "run evs s = fold step evs s"

text \<open>
  The payloads of the first \<open>c\<close> tasks, in task order, each with its handle: what the
  channel holds when the sender has dealt with the first \<open>c\<close> handles.
\<close>

definition expected_channel :: "(Request \<times> task_state) list \<Rightarrow> nat \<Rightarrow> (nat \<times> byte list) list" where
  "expected_channel ts c =
     concat (map (\<lambda>i. case payload_of (snd (ts ! i)) of None \<Rightarrow> [] | Some b \<Rightarrow> [(i, b)]) [0 ..< c])"

text \<open>What holds of a connection after any schedule, with \<open>c\<close> the number of handles the sender is done with.\<close>

definition pipeline_inv :: "connection \<Rightarrow> nat \<Rightarrow> bool" where
  "pipeline_inv s c \<longleftrightarrow>
     c \<le> length (tasks s)
   \<and> channel s = expected_channel (tasks s) c
   \<and> (\<forall>i < c. snd (tasks s ! i) \<noteq> Pending)
   \<and> (sender_running s \<longrightarrow>
        (case awaited s of
           None \<Rightarrow> send_queue s = [c ..< length (tasks s)]
         | Some i \<Rightarrow> i = c \<and> c < length (tasks s) \<and> send_queue s = [Suc c ..< length (tasks s)]))
   \<and> (\<exists>rest. dequeued s = map fst (tasks s) @ rest
         \<and> (case held s of Some r \<Rightarrow> rest = [r] | None \<Rightarrow> \<not> stop s \<longrightarrow> rest = []))"

text \<open>A schedule in which the second task finishes before the first, for the examples.\<close>

definition example_schedule :: "event list" where
  "example_schedule =
     [Receive \<lparr>req_time_ms = 900, req_rtt = None\<rparr>, Receive \<lparr>req_time_ms = 100, req_rtt = None\<rparr>,
      Dequeue, Spawn, Dequeue, Spawn, Complete 1 (Returned (Some [2])), SenderGet,
      SenderSend True, Complete 0 (Returned (Some [1])), SenderSend True, SenderGet,
      SenderSend True]"

section \<open>Dropping queue: overflow keeps the newest items\<close>

lemma put_nowait_maxsize: "maxsize (put_nowait x q) = maxsize q"
  by (simp add: put_nowait_def Let_def)

lemma put_all_general:
  assumes "0 < maxsize q" and "int (length (queue q)) \<le> maxsize q"
  shows "queue (put_all xs q) = drop (length (queue q @ xs) - nat (maxsize q)) (queue q @ xs)
       \<and> dropped_count (put_all xs q)
           = dropped_count q + (length (queue q @ xs) - nat (maxsize q))
       \<and> maxsize (put_all xs q) = maxsize q"
  using assms
proof (induction xs arbitrary: q)
  case Nil
  then show ?case by (simp add: put_all_def)
next
  case (Cons x xs)
  let ?q' = "put_nowait x q"
  have m: "maxsize ?q' = maxsize q" by (rule put_nowait_maxsize)
  show ?case
  proof (cases "int (length (queue q)) \<ge> maxsize q")
    case True
    with Cons.prems have full: "length (queue q) = nat (maxsize q)" by linarith
    then obtain y ys where q: "queue q = y # ys"
      using Cons.prems(1) by (cases "queue q") auto
    have q': "queue ?q' = ys @ [x]" "dropped_count ?q' = dropped_count q + 1"
      using True Cons.prems(1) q by (simp_all add: put_nowait_def Let_def)
    have len: "int (length (queue ?q')) \<le> maxsize ?q'"
      using q' q full m by simp
    have pos: "0 < maxsize ?q'" using m Cons.prems(1) by simp
    have k: "nat (maxsize q) = Suc (length ys)" using full q by simp
    have a: "length (queue ?q' @ xs) - nat (maxsize q) = length xs"
      using q' k by simp
    have b: "length (queue q @ x # xs) - nat (maxsize q) = Suc (length xs)"
      using q k by simp
    from Cons.IH [OF pos len] show ?thesis
      unfolding m a b using q q' by (simp add: put_all_def)
  next
    case False
    have q': "queue ?q' = queue q @ [x]" "dropped_count ?q' = dropped_count q"
      using False by (simp_all add: put_nowait_def Let_def)
    have len: "int (length (queue ?q')) \<le> maxsize ?q'"
      using q' m False by simp
    have pos: "0 < maxsize ?q'" using m Cons.prems(1) by simp
    have small: "length (queue q) + 1 \<le> nat (maxsize q)" using False by linarith
    from Cons.IH [OF pos len] show ?thesis
      using q' m small by (simp add: put_all_def)
  qed
qed

text \<open>
  C3. A fresh dropping queue of capacity \<open>K > 0\<close> receives \<open>n > K\<close> items and nobody
  takes any out. Every put returns (\<open>put_nowait\<close> is a total function, it has no
  waiting branch), the queue then reports exactly \<open>n - K\<close> dropped items and holds
  exactly the last \<open>K\<close> items, in the order they were put.
\<close>

theorem dropping_queue_keeps_last_K:
  assumes "0 < K" and "nat K < length xs"
  shows "dropped_count (put_all xs (DroppingQueue_init K)) = length xs - nat K
       \<and> queue (put_all xs (DroppingQueue_init K)) = drop (length xs - nat K) xs
       \<and> length (queue (put_all xs (DroppingQueue_init K))) = nat K"
proof -
  let ?q = "DroppingQueue_init K :: 'a DroppingQueue"
  have "0 < maxsize ?q" "int (length (queue ?q)) \<le> maxsize ?q"
    using assms(1) by (simp_all add: DroppingQueue_init_def)
  from put_all_general [OF this, of xs] show ?thesis
    using assms(2) by (simp add: DroppingQueue_init_def)
qed

theorem dropping_queue_keeps_last_K_witness:
  "dropped_count (put_all [10, 20, 30, 40, 50 :: nat] (DroppingQueue_init 2)) = 3
 \<and> queue (put_all [10, 20, 30, 40, 50 :: nat] (DroppingQueue_init 2)) = [40, 50]"
  using dropping_queue_keeps_last_K [of 2 "[10, 20, 30, 40, 50 :: nat]"] by simp

section \<open>Depth payload codec\<close>





lemma np_clip_bounds: "lo \<le> hi \<Longrightarrow> lo \<le> np_clip lo hi x \<and> np_clip lo hi x \<le> hi"
  by (auto simp: np_clip_def)


lemma adjusted_z_max_gt: "z_min < adjusted_z_max z_min z_max"
  by (simp add: adjusted_z_max_def)


lemma quantize_depth_result:
  "quantize_depth h a z_min z_max =
     (h\<lparr>arrays := (arrays h)(a := (arrays h a)\<lparr>data :=
            map (np_clip z_min (adjusted_z_max z_min z_max)) (data (arrays h a))\<rparr>)\<rparr>,
      map (\<lambda>x. word_of_int (rint ((np_clip z_min (adjusted_z_max z_min z_max) x - z_min)
             / ((adjusted_z_max z_min z_max - z_min) / 65535)))) (data (arrays h a)),
      (adjusted_z_max z_min z_max - z_min) / 65535,
      z_min)"
  by (simp add: quantize_depth_def Let_def comp_def)




lemmas codec_defs = pack_depth_payload_def quantize_depth_def example_heap_def default_settings_def
      adjusted_z_max_def np_clip_def rint_def tobytes_def HEADER_STRUCT_pack_def pack_I_def
      pack_f_def f32_limit_def pack_4s_def VDZ1_def VDZ2_def DATA_TYPE_UINT16_def int_trunc_def Let_def





lemma tobytes_length: "length (tobytes ws) = 2 * length ws"
  by (induction ws) (simp_all add: tobytes_def)

lemma encoded_pixels_length: "length (encoded_pixels h a z_min z_max) = length (data (arrays h a))"
  by (simp add: encoded_pixels_def quantize_depth_result)

lemma pack_heap: "fst (pack_depth_payload zc st h a ts z_min z_max compress)
    = fst (quantize_depth h a z_min z_max)"
  by (simp add: pack_depth_payload_def quantize_depth_result Let_def)

lemma scale_fits:
  assumes "\<bar>z_min\<bar> < f32_limit" "\<bar>z_max\<bar> < f32_limit"
  shows "\<bar>(adjusted_z_max z_min z_max - z_min) / 65535\<bar> < f32_limit"
proof -
  have big: "1 < f32_limit" by (simp add: f32_limit_def)
  have "\<bar>adjusted_z_max z_min z_max - z_min\<bar> \<le> 2 * f32_limit + 1"
    using assms by (auto simp: adjusted_z_max_def)
  then have "\<bar>adjusted_z_max z_min z_max - z_min\<bar> / 65535 \<le> (2 * f32_limit + 1) / 65535"
    by (simp add: divide_right_mono)
  also have "\<dots> < f32_limit" using big by simp
  finally show ?thesis by simp
qed

lemma pack_4s_length: "length (pack_4s b) = 4"
  by (simp add: pack_4s_def min_def)

lemma unat_u32_of_nat: "n < 2 ^ 32 \<Longrightarrow> unat (word_of_int (int n) :: 32 word) = n"
  by (simp add: unat_of_nat take_bit_nat_eq_self)

lemma int_less_2_32: "(n::nat) < 2 ^ 32 \<Longrightarrow> int n < 2 ^ 32"
  by (metis of_nat_less_iff of_nat_numeral of_nat_power)

text \<open>
  C7, as the code has it. The timestamp is packed as \<^verbatim>\<open>int(timestamp_ms)\<close> into an
  unsigned 32-bit field with no reduction modulo \<open>2^32\<close>: a timestamp whose integer part
  is negative or at least \<open>2^32\<close> makes \<^verbatim>\<open>pack_depth_payload\<close> raise
  \<^verbatim>\<open>struct.error\<close>. When the integer part of the timestamp is in \<open>[0, 2^32)\<close>, both
  dimensions are below \<open>2^32\<close> and \<open>z_min\<close>, \<open>z_max\<close> are within the binary32
  range, the call returns a payload: a header with the truncated timestamp, version 1,
  data type 1, a four-byte magic and the array's dimensions, followed by two bytes per
  pixel (deflated when compression is on).
\<close>

theorem pack_depth_payload_header_fits:
  "(int_trunc ts < 0 \<or> 2 ^ 32 \<le> int_trunc ts \<longrightarrow>
      snd (pack_depth_payload zc st h a ts z_min z_max compress) = Inl StructError)
 \<and> (0 \<le> int_trunc ts \<and> int_trunc ts < 2 ^ 32
      \<and> shape1 (arrays h a) < 2 ^ 32 \<and> shape0 (arrays h a) < 2 ^ 32
      \<and> \<bar>z_min\<bar> < f32_limit \<and> \<bar>z_max\<bar> < f32_limit \<longrightarrow>
      (\<exists>p. snd (pack_depth_payload zc st h a ts z_min z_max compress) = Inr p
         \<and> hdr_timestamp_ms (fst (buffer p)) = word_of_int (int_trunc ts)
         \<and> hdr_version (fst (buffer p)) = 1 \<and> hdr_data_type (fst (buffer p)) = 1
         \<and> length (hdr_magic (fst (buffer p))) = 4
         \<and> unat (hdr_width (fst (buffer p))) = shape1 (arrays h a)
         \<and> unat (hdr_height (fst (buffer p))) = shape0 (arrays h a)
         \<and> snd (buffer p) = (if compress then zc (tobytes (encoded_pixels h a z_min z_max))
                              else tobytes (encoded_pixels h a z_min z_max))
         \<and> length (tobytes (encoded_pixels h a z_min z_max)) = 2 * length (data (arrays h a))))"
proof (intro conjI impI)
  assume "int_trunc ts < 0 \<or> 2 ^ 32 \<le> int_trunc ts"
  then show "snd (pack_depth_payload zc st h a ts z_min z_max compress) = Inl StructError"
    by (auto simp: pack_depth_payload_def quantize_depth_result HEADER_STRUCT_pack_def
        pack_I_def Let_def)
next
  assume r: "0 \<le> int_trunc ts \<and> int_trunc ts < 2 ^ 32
      \<and> shape1 (arrays h a) < 2 ^ 32 \<and> shape0 (arrays h a) < 2 ^ 32
      \<and> \<bar>z_min\<bar> < f32_limit \<and> \<bar>z_max\<bar> < f32_limit"
  then have sc: "\<bar>(adjusted_z_max z_min z_max - z_min) / 65535\<bar> < f32_limit"
    using scale_fits by blast
  have w: "int (shape1 (arrays h a)) < 2 ^ 32" "int (shape0 (arrays h a)) < 2 ^ 32"
    using r int_less_2_32 by blast+
  have u: "unat (word_of_int (int (shape1 (arrays h a))) :: 32 word) = shape1 (arrays h a)"
          "unat (word_of_int (int (shape0 (arrays h a))) :: 32 word) = shape0 (arrays h a)"
    using r unat_u32_of_nat by blast+
  show "\<exists>p. snd (pack_depth_payload zc st h a ts z_min z_max compress) = Inr p
         \<and> hdr_timestamp_ms (fst (buffer p)) = word_of_int (int_trunc ts)
         \<and> hdr_version (fst (buffer p)) = 1 \<and> hdr_data_type (fst (buffer p)) = 1
         \<and> length (hdr_magic (fst (buffer p))) = 4
         \<and> unat (hdr_width (fst (buffer p))) = shape1 (arrays h a)
         \<and> unat (hdr_height (fst (buffer p))) = shape0 (arrays h a)
         \<and> snd (buffer p) = (if compress then zc (tobytes (encoded_pixels h a z_min z_max))
                              else tobytes (encoded_pixels h a z_min z_max))
         \<and> length (tobytes (encoded_pixels h a z_min z_max)) = 2 * length (data (arrays h a))"
    using r sc w u
    by (simp add: pack_depth_payload_def quantize_depth_result HEADER_STRUCT_pack_def
        pack_I_def pack_f_def Let_def pack_4s_length DATA_TYPE_UINT16_def encoded_pixels_def
        tobytes_length)
qed

theorem pack_depth_payload_raises_counterexample:
  "snd (pack_depth_payload id default_settings example_heap 0 4294967296 0 1 False)
     = Inl StructError
 \<and> snd (pack_depth_payload id default_settings example_heap 0 (- 1) 0 1 False)
     = Inl StructError"
  by (simp add: codec_defs)

theorem pack_depth_payload_header_fits_witness:
  "snd (pack_depth_payload id default_settings example_heap 0 4294967296 0 1 False)
     = Inl StructError
 \<and> (\<exists>p. snd (pack_depth_payload id default_settings example_heap 0 40 0 1 False) = Inr p
        \<and> hdr_timestamp_ms (fst (buffer p)) = 40)"
proof -
  have a: "int_trunc 4294967296 < 0 \<or> (2::int) ^ 32 \<le> int_trunc 4294967296"
    by (simp add: int_trunc_def)
  have b: "0 \<le> int_trunc 40 \<and> int_trunc 40 < 2 ^ 32
      \<and> shape1 (arrays example_heap 0) < 2 ^ 32 \<and> shape0 (arrays example_heap 0) < 2 ^ 32
      \<and> \<bar>0 :: real\<bar> < f32_limit \<and> \<bar>1 :: real\<bar> < f32_limit"
    by (simp add: int_trunc_def example_heap_def f32_limit_def)
  have c: "int_trunc 40 = 40" by (simp add: int_trunc_def)
  from pack_depth_payload_header_fits [of 4294967296 id default_settings example_heap 0 0 1 False] a
  have 1: "snd (pack_depth_payload id default_settings example_heap 0 4294967296 0 1 False)
     = Inl StructError" by blast
  from pack_depth_payload_header_fits [of 40 id default_settings example_heap 0 0 1 False] b
  have 2: "\<exists>p. snd (pack_depth_payload id default_settings example_heap 0 40 0 1 False) = Inr p
        \<and> hdr_timestamp_ms (fst (buffer p)) = 40" unfolding c by auto
  from 1 2 show ?thesis by (intro conjI)
qed

lemma map_clip_changes:
  assumes "lo < hi" and "\<exists>x \<in> set xs. x < lo \<or> hi < x"
  shows "map (np_clip lo hi) xs \<noteq> xs"
proof
  assume eq: "map (np_clip lo hi) xs = xs"
  from assms(2) obtain x where x: "x \<in> set xs" "x < lo \<or> hi < x" by blast
  from eq have "\<forall>y \<in> set xs. np_clip lo hi y = y" by (simp add: map_idI map_eq_conv [of _ xs id, simplified])
  with x have "np_clip lo hi x = x" by blast
  with x(2) assms(1) show False by (auto simp: np_clip_def min_def max_def split: if_splits)
qed

text \<open>
  C9. \<^verbatim>\<open>quantize_depth\<close>, and so \<^verbatim>\<open>pack_depth_payload\<close>, writes into the array it
  is given: after the call the array at the caller's address holds the entries clamped to
  \<open>[z_min, adjusted z_max]\<close>, so it differs from what the caller passed as soon as one
  entry was outside that range; no other array changes. The streaming pipeline passes
  \<^verbatim>\<open>cached.depth.copy()\<close>, and the cached frame's own array stays as it was.
\<close>

theorem quantize_depth_clips_in_place:
  "arrays (fst (quantize_depth h a z_min z_max)) a
     = (arrays h a)\<lparr>data := map (np_clip z_min (adjusted_z_max z_min z_max))
                               (data (arrays h a))\<rparr>
 \<and> (\<forall>x \<in> set (data (arrays (fst (quantize_depth h a z_min z_max)) a)).
        z_min \<le> x \<and> x \<le> adjusted_z_max z_min z_max)
 \<and> ((\<exists>x \<in> set (data (arrays h a)). x < z_min \<or> adjusted_z_max z_min z_max < x) \<longrightarrow>
        arrays (fst (quantize_depth h a z_min z_max)) a \<noteq> arrays h a)
 \<and> (\<forall>b. b \<noteq> a \<longrightarrow> arrays (fst (quantize_depth h a z_min z_max)) b = arrays h b)
 \<and> fst (pack_depth_payload zc st h a ts z_min z_max compress)
     = fst (quantize_depth h a z_min z_max)
 \<and> (depth cached < next_free h \<longrightarrow>
        arrays (fst (pack_frame zc st h cached)) (depth cached) = arrays h (depth cached))"
proof (intro conjI)
  let ?zm = "adjusted_z_max z_min z_max"
  have lt: "z_min < ?zm" by (rule adjusted_z_max_gt)
  show 1: "arrays (fst (quantize_depth h a z_min z_max)) a
     = (arrays h a)\<lparr>data := map (np_clip z_min ?zm) (data (arrays h a))\<rparr>"
    by (simp add: quantize_depth_result)
  show "\<forall>x \<in> set (data (arrays (fst (quantize_depth h a z_min z_max)) a)).
        z_min \<le> x \<and> x \<le> ?zm"
    unfolding 1 using np_clip_bounds [of z_min ?zm] lt by auto
  show "(\<exists>x \<in> set (data (arrays h a)). x < z_min \<or> ?zm < x) \<longrightarrow>
        arrays (fst (quantize_depth h a z_min z_max)) a \<noteq> arrays h a"
  proof
    assume "\<exists>x \<in> set (data (arrays h a)). x < z_min \<or> ?zm < x"
    from map_clip_changes [OF lt this]
    have "data ((arrays h a)\<lparr>data := map (np_clip z_min ?zm) (data (arrays h a))\<rparr>)
            \<noteq> data (arrays h a)" by simp
    then show "arrays (fst (quantize_depth h a z_min z_max)) a \<noteq> arrays h a"
      unfolding 1 by metis
  qed
  show "\<forall>b. b \<noteq> a \<longrightarrow> arrays (fst (quantize_depth h a z_min z_max)) b = arrays h b"
    by (simp add: quantize_depth_result)
  show "fst (pack_depth_payload zc st h a ts z_min z_max compress)
     = fst (quantize_depth h a z_min z_max)"
    by (rule pack_heap)
  show "depth cached < next_free h \<longrightarrow>
        arrays (fst (pack_frame zc st h cached)) (depth cached) = arrays h (depth cached)"
    by (simp add: pack_frame_def ndarray_copy_def Let_def pack_heap quantize_depth_result)
qed

theorem quantize_depth_clips_in_place_witness:
  "data (arrays example_heap 0) = [1 / 2, 3]
 \<and> data (arrays (fst (quantize_depth example_heap 0 0 1)) 0) = [1 / 2, 1]
 \<and> arrays (fst (quantize_depth example_heap 0 0 1)) 0 \<noteq> arrays example_heap 0
 \<and> arrays (fst (pack_depth_payload id default_settings example_heap 0 40 0 1 False)) 0
     \<noteq> arrays example_heap 0
 \<and> arrays (fst (pack_frame id default_settings example_heap
       \<lparr>timestamp_ms = 40, depth = 0, frame_z_min = 0, frame_z_max = 1\<rparr>)) 0
     = arrays example_heap 0"
proof -
  note t = quantize_depth_clips_in_place [of example_heap 0 0 1 id default_settings 40 False
      "\<lparr>timestamp_ms = 40, depth = 0, frame_z_min = 0, frame_z_max = 1\<rparr>"]
  have e: "data (arrays example_heap 0) = [1 / 2, 3]" by (simp add: example_heap_def)
  have z: "adjusted_z_max 0 1 = 1" by (simp add: adjusted_z_max_def)
  have ex: "\<exists>x \<in> set (data (arrays example_heap 0)). x < 0 \<or> adjusted_z_max 0 1 < x"
    by (simp add: e z)
  have n: "depth \<lparr>timestamp_ms = 40, depth = 0, frame_z_min = 0, frame_z_max = 1\<rparr>
      < next_free example_heap" by (simp add: example_heap_def)
  from t have 1: "data (arrays (fst (quantize_depth example_heap 0 0 1)) 0) = [1 / 2, 1]"
    by (simp add: e z np_clip_def)
  from t ex have 2: "arrays (fst (quantize_depth example_heap 0 0 1)) 0 \<noteq> arrays example_heap 0"
    by blast
  from t have 3: "fst (pack_depth_payload id default_settings example_heap 0 40 0 1 False)
      = fst (quantize_depth example_heap 0 0 1)" by blast
  from t n have 4: "arrays (fst (pack_frame id default_settings example_heap
       \<lparr>timestamp_ms = 40, depth = 0, frame_z_min = 0, frame_z_max = 1\<rparr>)) 0
     = arrays example_heap 0" by simp
  show ?thesis using e 1 2 4 unfolding 3 by (intro conjI)
qed



section \<open>Depth cache\<close>

lemma popleft_times_drop: "popleft_times n xs = drop n xs"
  by (induction n arbitrary: xs) (simp_all add: drop_Suc)

lemma scan_from_Some:
  "scan_from buf n t tol = Some i \<Longrightarrow>
     i < n \<and> \<bar>timestamp_ms (buf ! i) - t\<bar> \<le> tol
   \<and> (\<forall>j. i < j \<and> j < n \<longrightarrow> \<not> \<bar>timestamp_ms (buf ! j) - t\<bar> \<le> tol)"
proof (induction n)
  case 0
  then show ?case by simp
next
  case (Suc n)
  show ?case
  proof (cases "\<bar>timestamp_ms (buf ! n) - t\<bar> \<le> tol")
    case True
    with Suc.prems show ?thesis by auto
  next
    case False
    with Suc.prems have "scan_from buf n t tol = Some i" by simp
    from Suc.IH [OF this] False show ?thesis
      by (auto simp: less_Suc_eq)
  qed
qed

lemma scan_from_None:
  "scan_from buf n t tol = None \<longleftrightarrow> (\<forall>j < n. \<not> \<bar>timestamp_ms (buf ! j) - t\<bar> \<le> tol)"
  by (induction n) (auto simp: less_Suc_eq)

lemma deque_append_length:
  "length xs \<le> maxlen \<Longrightarrow> length (deque_append maxlen x xs) \<le> maxlen"
  by (auto simp: deque_append_def Let_def)

lemma store_depth_frame_bounded:
  "length (depth_buffer s) \<le> depth_buffer_maxlen s \<Longrightarrow>
     length (depth_buffer (store_depth_frame f s)) \<le> depth_buffer_maxlen (store_depth_frame f s)"
  by (simp add: store_depth_frame_def deque_append_length)

lemma get_cached_depth_bounded:
  "length (depth_buffer s) \<le> depth_buffer_maxlen s \<Longrightarrow>
     length (depth_buffer (snd (get_cached_depth t tol d s)))
       \<le> depth_buffer_maxlen (snd (get_cached_depth t tol d s))"
  by (auto simp: get_cached_depth_def popleft_times_drop split: option.splits)

lemma apply_cache_op_bounded:
  "length (depth_buffer s) \<le> depth_buffer_maxlen s \<Longrightarrow>
     length (depth_buffer (apply_cache_op op s)) \<le> depth_buffer_maxlen (apply_cache_op op s)"
  by (cases op) (simp_all add: store_depth_frame_bounded get_cached_depth_bounded)

lemma apply_cache_op_maxlen:
  "depth_buffer_maxlen (apply_cache_op op s) = depth_buffer_maxlen s"
  by (cases op) (auto simp: store_depth_frame_def get_cached_depth_def split: option.splits)

lemma apply_cache_ops_bounded:
  "length (depth_buffer s) \<le> depth_buffer_maxlen s \<Longrightarrow>
     length (depth_buffer (apply_cache_ops ops s)) \<le> depth_buffer_maxlen s
   \<and> depth_buffer_maxlen (apply_cache_ops ops s) = depth_buffer_maxlen s"
proof (induction ops arbitrary: s)
  case Nil
  then show ?case by (simp add: apply_cache_ops_def)
next
  case (Cons op ops)
  from apply_cache_op_bounded [OF Cons.prems, of op]
  have "length (depth_buffer (apply_cache_op op s)) \<le> depth_buffer_maxlen (apply_cache_op op s)" .
  from Cons.IH [OF this] show ?case
    by (simp add: apply_cache_ops_def apply_cache_op_maxlen)
qed

text \<open>
  C4. A session's depth cache never holds more frames than its capacity, whatever
  sequence of \<^verbatim>\<open>store_depth_frame\<close> and \<^verbatim>\<open>get_cached_depth\<close> calls runs on it (from a
  fresh session, and from any state within capacity). \<^verbatim>\<open>get_cached_depth\<close> misses
  exactly when no frame is within the tolerance; a hit is the frame at some index \<open>i\<close>
  that is within the tolerance while no newer frame (index above \<open>i\<close>) is; and with
  \<^verbatim>\<open>drop_on_hit\<close> the buffer afterwards is the old one without its first \<open>i + 1\<close>
  frames, so the hit and everything older are gone.
\<close>

theorem depth_cache_bounded_and_fresh:
  "(VideoSession_init settings = Inr s0 \<longrightarrow>
      length (depth_buffer (apply_cache_ops ops s0)) \<le> nat (video_cache_size settings))
 \<and> (length (depth_buffer s) \<le> depth_buffer_maxlen s \<longrightarrow>
      length (depth_buffer (apply_cache_ops ops s)) \<le> depth_buffer_maxlen s)
 \<and> (fst (get_cached_depth t tol d s) = None \<longleftrightarrow>
      (\<forall>j < length (depth_buffer s). \<not> \<bar>timestamp_ms (depth_buffer s ! j) - t\<bar> \<le> tol))
 \<and> (\<forall>f. fst (get_cached_depth t tol d s) = Some f \<longrightarrow>
      (\<exists>i < length (depth_buffer s).
          f = depth_buffer s ! i
        \<and> \<bar>timestamp_ms f - t\<bar> \<le> tol
        \<and> (\<forall>j. i < j \<and> j < length (depth_buffer s) \<longrightarrow>
               \<not> \<bar>timestamp_ms (depth_buffer s ! j) - t\<bar> \<le> tol)
        \<and> depth_buffer (snd (get_cached_depth t tol True s)) = drop (i + 1) (depth_buffer s)
        \<and> length (depth_buffer (snd (get_cached_depth t tol True s)))
            = length (depth_buffer s) - (i + 1)
        \<and> depth_buffer (snd (get_cached_depth t tol False s)) = depth_buffer s))"
proof (intro conjI allI impI)
  assume "VideoSession_init settings = Inr s0"
  then have s0: "depth_buffer s0 = []" "depth_buffer_maxlen s0 = nat (video_cache_size settings)"
    by (auto simp: VideoSession_init_def split: if_splits)
  then have "length (depth_buffer s0) \<le> depth_buffer_maxlen s0" by simp
  from apply_cache_ops_bounded [OF this, of ops] s0
  show "length (depth_buffer (apply_cache_ops ops s0)) \<le> nat (video_cache_size settings)"
    by simp
next
  assume "length (depth_buffer s) \<le> depth_buffer_maxlen s"
  from apply_cache_ops_bounded [OF this, of ops]
  show "length (depth_buffer (apply_cache_ops ops s)) \<le> depth_buffer_maxlen s" by simp
next
  show "fst (get_cached_depth t tol d s) = None \<longleftrightarrow>
      (\<forall>j < length (depth_buffer s). \<not> \<bar>timestamp_ms (depth_buffer s ! j) - t\<bar> \<le> tol)"
    using scan_from_None [of "depth_buffer s" "length (depth_buffer s)" t tol]
    by (auto simp: get_cached_depth_def split: option.splits)
next
  fix f
  assume "fst (get_cached_depth t tol d s) = Some f"
  then obtain i where i: "scan_from (depth_buffer s) (length (depth_buffer s)) t tol = Some i"
    and f: "f = depth_buffer s ! i"
    by (auto simp: get_cached_depth_def split: option.splits)
  from scan_from_Some [OF i] f i
  show "\<exists>i < length (depth_buffer s).
          f = depth_buffer s ! i
        \<and> \<bar>timestamp_ms f - t\<bar> \<le> tol
        \<and> (\<forall>j. i < j \<and> j < length (depth_buffer s) \<longrightarrow>
               \<not> \<bar>timestamp_ms (depth_buffer s ! j) - t\<bar> \<le> tol)
        \<and> depth_buffer (snd (get_cached_depth t tol True s)) = drop (i + 1) (depth_buffer s)
        \<and> length (depth_buffer (snd (get_cached_depth t tol True s)))
            = length (depth_buffer s) - (i + 1)
        \<and> depth_buffer (snd (get_cached_depth t tol False s)) = depth_buffer s"
    by (intro exI [of _ i]) (simp add: get_cached_depth_def popleft_times_drop)
qed


lemma example_cache_buffer:
  "depth_buffer example_cache = [example_frame 100, example_frame 200, example_frame 300]"
  "depth_buffer_maxlen example_cache = 3"
  by (simp_all add: example_cache_def example_session_def apply_cache_ops_def
      store_depth_frame_def deque_append_def)

lemma example_cache_get:
  "fst (get_cached_depth 210 33 True example_cache) = Some (example_frame 200)"
  by (simp add: get_cached_depth_def example_cache_buffer example_frame_def numeral_3_eq_3)

theorem depth_cache_bounded_and_fresh_witness:
  "length (depth_buffer (apply_cache_ops [Store (example_frame 0), Store (example_frame 100),
       Store (example_frame 200), Store (example_frame 300)] example_session)) \<le> 3
 \<and> (\<exists>i < 3. example_frame 200 = depth_buffer example_cache ! i
       \<and> depth_buffer (snd (get_cached_depth 210 33 True example_cache))
           = drop (i + 1) (depth_buffer example_cache)
       \<and> length (depth_buffer (snd (get_cached_depth 210 33 True example_cache))) = 3 - (i + 1))"
proof -
  note t = depth_cache_bounded_and_fresh [of default_settings example_session _ example_session]
  have "length (depth_buffer example_session) \<le> depth_buffer_maxlen example_session"
    by (simp add: example_session_def)
  with t have 1: "length (depth_buffer (apply_cache_ops ops example_session)) \<le> 3" for ops
    by (simp add: example_session_def)
  note u = depth_cache_bounded_and_fresh [of default_settings example_session "[]" example_cache
      210 33 True]
  from u example_cache_get have "\<exists>i < length (depth_buffer example_cache).
       example_frame 200 = depth_buffer example_cache ! i
     \<and> depth_buffer (snd (get_cached_depth 210 33 True example_cache))
           = drop (i + 1) (depth_buffer example_cache)
     \<and> length (depth_buffer (snd (get_cached_depth 210 33 True example_cache)))
           = length (depth_buffer example_cache) - (i + 1)"
    by blast
  moreover have "length (depth_buffer example_cache) = 3" by (simp add: example_cache_buffer(1))
  ultimately have 2: "\<exists>i < 3. example_frame 200 = depth_buffer example_cache ! i
       \<and> depth_buffer (snd (get_cached_depth 210 33 True example_cache))
           = drop (i + 1) (depth_buffer example_cache)
       \<and> length (depth_buffer (snd (get_cached_depth 210 33 True example_cache))) = 3 - (i + 1)"
    by metis
  from 1 2 show ?thesis by (intro conjI)
qed

section \<open>Telemetry: the rolling statistics\<close>

lemma rolling_target_cases:
  "rolling_target ''dropped'' = Some ''drop_count''"
  "rolling_target ''infer_s'' = Some ''infer_avg_s''"
  "rolling_target ''queue_wait_s'' = Some ''queue_avg_s''"
  "rolling_target ''ws_send_s'' = Some ''ws_send_avg_s''"
  "rolling_target ''decode_s'' = Some ''decode_avg_s''"
  "rolling_target ''latency_ms'' = Some ''latency_ms''"
  "rolling_target ''depth_fps'' = Some ''depth_fps''"
  by (simp_all add: rolling_target_def avg_key_of_def)

lemma rolling_target_other:
  "k \<notin> fst ` set rolling_keys \<Longrightarrow> rolling_target k = None"
  by (simp add: rolling_target_def rolling_keys_def)

lemma rolling_target_Some:
  assumes "rolling_target k = Some t"
  shows "(k, t) \<in> set rolling_keys"
proof (cases "k \<in> fst ` set rolling_keys")
  case False
  with assms rolling_target_other show ?thesis by simp
next
  case True
  then consider "k = ''dropped''" | "k = ''infer_s''" | "k = ''queue_wait_s''"
    | "k = ''ws_send_s''" | "k = ''decode_s''" | "k = ''latency_ms''" | "k = ''depth_fps''"
    unfolding rolling_keys_def by fastforce
  then show ?thesis
    using assms by cases (simp_all add: rolling_target_cases rolling_keys_def)
qed

lemma distinct_snd_key:
  "distinct (map snd xs) \<Longrightarrow> (k1, t) \<in> set xs \<Longrightarrow> (k2, t) \<in> set xs \<Longrightarrow> k1 = k2"
  by (induction xs) (auto simp: rev_image_eqI)

lemma rolling_keys_distinct: "distinct (map snd rolling_keys)"
  by (simp add: rolling_keys_def)

lemma rolling_target_inj:
  "rolling_target k1 = Some t \<Longrightarrow> rolling_target k2 = Some t \<Longrightarrow> k1 = k2"
  using distinct_snd_key [OF rolling_keys_distinct] rolling_target_Some by blast


lemma update_rolling_Cons:
  "update_rolling alpha ((key, val) # rest) rs =
     (case rolling_target key of
        None \<Rightarrow> update_rolling alpha rest rs
      | Some t \<Rightarrow>
          if key = ''dropped'' then
            (case rs t of None \<Rightarrow> Inl KeyError
             | Some d \<Rightarrow> update_rolling alpha rest (rs(t \<mapsto> d + val)))
          else update_rolling alpha rest
                 (rs(t \<mapsto> (let current = (case rs t of None \<Rightarrow> 0 | Some c \<Rightarrow> c)
                             in if current = 0 then val
                                else alpha * val + (1 - alpha) * current))))"
  by (simp add: rolling_target_def Let_def)


lemma update_rolling_untouched:
  "update_rolling alpha ms rs = Inr rs' \<Longrightarrow>
   \<forall>key \<in> fst ` set ms. rolling_target key \<noteq> Some k \<Longrightarrow> rs' k = rs k"
proof (induction ms arbitrary: rs)
  case Nil
  then show ?case by simp
next
  case (Cons item ms)
  obtain key val where item: "item = (key, val)" by (cases item)
  from Cons.prems(2) have rest: "\<forall>key \<in> fst ` set ms. rolling_target key \<noteq> Some k"
    and here: "rolling_target key \<noteq> Some k" by (simp_all add: item)
  show ?case
  proof (cases "rolling_target key")
    case None
    with Cons.prems(1) have "update_rolling alpha ms rs = Inr rs'"
      by (simp add: item update_rolling_Cons del: update_rolling.simps)
    from Cons.IH [OF this rest] show ?thesis .
  next
    case (Some t)
    with here have tk: "t \<noteq> k" by simp
    from Cons.prems(1) Some obtain x where "update_rolling alpha ms (rs(t \<mapsto> x)) = Inr rs'"
      by (auto simp: item update_rolling_Cons simp del: update_rolling.simps
          split: if_splits option.splits)
    from Cons.IH [OF this rest] tk show ?thesis by simp
  qed
qed

lemma update_rolling_hit:
  assumes "update_rolling alpha ms rs = Inr rs'"
    and "distinct (map fst ms)"
    and "map_of ms key = Some v"
    and "rolling_target key = Some t"
  shows "(key = ''dropped'' \<longrightarrow> (\<exists>d. rs t = Some d \<and> rs' t = Some (d + v)))
       \<and> (key \<noteq> ''dropped'' \<longrightarrow>
            rs' t = Some (let current = (case rs t of None \<Rightarrow> 0 | Some c \<Rightarrow> c)
                          in if current = 0 then v else alpha * v + (1 - alpha) * current))"
  using assms
proof (induction ms arbitrary: rs)
  case Nil
  then show ?case by simp
next
  case (Cons item ms)
  obtain key' val where item: "item = (key', val)" by (cases item)
  show ?case
  proof (cases "key' = key")
    case True
    with Cons.prems(3) have v: "val = v" by (simp add: item)
    from Cons.prems(2) True have "key \<notin> fst ` set ms" by (simp add: item)
    then have rest: "\<forall>k' \<in> fst ` set ms. rolling_target k' \<noteq> Some t"
      using rolling_target_inj [OF _ Cons.prems(4)] by blast
    show ?thesis
    proof (cases "key = ''dropped''")
      case dropped: True
      with Cons.prems(1,4) True v obtain d where d: "rs t = Some d"
        and run: "update_rolling alpha ms (rs(t \<mapsto> d + v)) = Inr rs'"
        by (auto simp: item update_rolling_Cons simp del: update_rolling.simps
            split: option.splits)
      from update_rolling_untouched [OF run rest] d dropped show ?thesis by simp
    next
      case other: False
      let ?x = "let current = (case rs t of None \<Rightarrow> 0 | Some c \<Rightarrow> c)
                in if current = 0 then v else alpha * v + (1 - alpha) * current"
      from Cons.prems(1,4) True v other
      have run: "update_rolling alpha ms (rs(t \<mapsto> ?x)) = Inr rs'"
        by (simp add: item update_rolling_Cons del: update_rolling.simps)
      from update_rolling_untouched [OF run rest] other show ?thesis by simp
    qed
  next
    case False
    with Cons.prems(3) have m: "map_of ms key = Some v" by (simp add: item)
    from Cons.prems(2) have dist: "distinct (map fst ms)" by simp
    have nt: "rolling_target key' \<noteq> Some t"
      using rolling_target_inj [OF _ Cons.prems(4)] False by blast
    show ?thesis
    proof (cases "rolling_target key'")
      case None
      with Cons.prems(1) have "update_rolling alpha ms rs = Inr rs'"
        by (simp add: item update_rolling_Cons del: update_rolling.simps)
      from Cons.IH [OF this dist m Cons.prems(4)] show ?thesis .
    next
      case (Some t')
      with nt have tt: "t' \<noteq> t" by simp
      from Cons.prems(1) Some obtain x where "update_rolling alpha ms (rs(t' \<mapsto> x)) = Inr rs'"
        by (auto simp: item update_rolling_Cons simp del: update_rolling.simps
            split: if_splits option.splits)
      from Cons.IH [OF this dist m Cons.prems(4)] tt show ?thesis by simp
    qed
  qed
qed

lemma update_rolling_succeeds:
  "rs ''drop_count'' \<noteq> None \<Longrightarrow> \<exists>rs'. update_rolling alpha ms rs = Inr rs'"
proof (induction ms arbitrary: rs)
  case Nil
  then show ?case by simp
next
  case (Cons item ms)
  obtain key val where item: "item = (key, val)" by (cases item)
  show ?case
  proof (cases "rolling_target key")
    case None
    from Cons.prems have "\<exists>rs'. update_rolling alpha ms rs = Inr rs'" by (rule Cons.IH)
    with None show ?thesis
      by (simp add: item update_rolling_Cons del: update_rolling.simps)
  next
    case (Some t)
    have step: "\<exists>rs'. update_rolling alpha ms (rs(t \<mapsto> x)) = Inr rs'" for x
      using Cons.prems by (intro Cons.IH) simp
    show ?thesis
    proof (cases "key = ''dropped''")
      case True
      with Some have "t = ''drop_count''" by (simp add: rolling_target_cases)
      with Cons.prems obtain d where "rs t = Some d" by auto
      with True Some step show ?thesis
        by (simp add: item update_rolling_Cons del: update_rolling.simps)
    next
      case False
      with Some step show ?thesis
        by (simp add: item update_rolling_Cons del: update_rolling.simps)
    qed
  qed
qed

lemma adjust_quality_rolling_stats:
  "rolling_stats (adjust_quality settings s) = rolling_stats s"
  by (simp add: adjust_quality_def Let_def)


lemma update_rolling_miss:
  assumes "update_rolling alpha ms rs = Inr rs'"
    and "map_of ms key = None"
    and "rolling_target key = Some t"
  shows "rs' t = rs t"
proof -
  from assms(2) have "key \<notin> fst ` set ms" by (simp add: map_of_eq_None_iff)
  then have "\<forall>k' \<in> fst ` set ms. rolling_target k' \<noteq> Some t"
    using rolling_target_inj [OF _ assms(3)] by blast
  from update_rolling_untouched [OF assms(1) this] show ?thesis .
qed

lemma update_rolling_ema:
  assumes "update_rolling (1 / 10) ms rs = Inr rs'"
    and "distinct (map fst ms)"
    and "rolling_target key = Some t"
    and "key \<noteq> ''dropped''"
  shows "rs' t = (case map_of ms key of None \<Rightarrow> rs t | Some v \<Rightarrow> Some (ema_rule (rs t) v))"
proof (cases "map_of ms key")
  case None
  from update_rolling_miss [OF assms(1) None assms(3)] None show ?thesis by simp
next
  case (Some v)
  from update_rolling_hit [OF assms(1,2) Some assms(3)] assms(4) Some show ?thesis
    by (simp add: ema_rule_def Let_def)
qed

lemma update_rolling_dropped:
  assumes "update_rolling alpha ms rs = Inr rs'"
    and "distinct (map fst ms)"
    and "rs ''drop_count'' = Some d0"
  shows "rs' ''drop_count'' = Some (d0 + (case map_of ms ''dropped'' of None \<Rightarrow> 0 | Some v \<Rightarrow> v))"
proof (cases "map_of ms ''dropped''")
  case None
  from update_rolling_miss [OF assms(1) None rolling_target_cases(1)] None assms(3)
  show ?thesis by simp
next
  case (Some v)
  from update_rolling_hit [OF assms(1,2) Some rolling_target_cases(1)] Some assms(3)
  show ?thesis by simp
qed

lemma update_fps_other: "k \<noteq> ''depth_fps'' \<Longrightarrow> update_fps alpha ms rs k = rs k"
  by (simp add: update_fps_def Let_def split: option.splits)

lemma update_fps_depth_fps:
  "update_fps (1 / 10) ms rs ''depth_fps'' =
     (case map_of ms ''total_s'' of
        None \<Rightarrow> rs ''depth_fps''
      | Some total_s \<Rightarrow>
          if 0 < total_s then Some (ema_rule (rs ''depth_fps'') (1 / total_s))
          else rs ''depth_fps'')"
  by (simp add: update_fps_def ema_rule_def Let_def split: option.splits)

lemma update_telemetry_rolling:
  assumes "update_telemetry settings metrics s = Inr s'"
  shows "\<exists>rs. update_rolling (1 / 10) metrics (rolling_stats s) = Inr rs
            \<and> rolling_stats s' = update_fps (1 / 10) metrics rs"
  using assms
  by (auto simp: update_telemetry_def Let_def adjust_quality_rolling_stats split: sum.splits)

text \<open>
  C8, as the code has it. For a metrics dict (distinct keys) and a session whose
  \<open>drop_count\<close> entry exists, \<^verbatim>\<open>update_telemetry\<close> returns, and each statistic is
  the old one with the rule \<open>stat \<leftarrow> (stat == 0 ? sample : 0.1 * sample + 0.9 * stat)\<close>
  applied once for the sample under its key: \<open>infer_s\<close>, \<open>queue_wait_s\<close>,
  \<open>ws_send_s\<close>, \<open>decode_s\<close> feed \<open>infer_avg_s\<close>, \<open>queue_avg_s\<close>,
  \<open>ws_send_avg_s\<close>, \<open>decode_avg_s\<close>; \<open>latency_ms\<close> and \<open>depth_fps\<close> feed
  themselves. \<open>depth_fps\<close> is then fed \<open>1 / total_s\<close> when \<open>total_s\<close> is present
  and positive; a \<open>total_s\<close> that is zero or negative feeds nothing. \<open>drop_count\<close>
  grows by exactly the \<open>dropped\<close> sample, so it does not decrease when that sample is
  not negative.
\<close>

theorem update_telemetry_ema:
  assumes dist: "distinct (map fst metrics)"
    and dc: "rolling_stats s ''drop_count'' = Some d0"
  shows "\<exists>s'. update_telemetry settings metrics s = Inr s'
     \<and> rolling_stats s' ''infer_avg_s'' =
         (case map_of metrics ''infer_s'' of None \<Rightarrow> rolling_stats s ''infer_avg_s''
          | Some v \<Rightarrow> Some (ema_rule (rolling_stats s ''infer_avg_s'') v))
     \<and> rolling_stats s' ''queue_avg_s'' =
         (case map_of metrics ''queue_wait_s'' of None \<Rightarrow> rolling_stats s ''queue_avg_s''
          | Some v \<Rightarrow> Some (ema_rule (rolling_stats s ''queue_avg_s'') v))
     \<and> rolling_stats s' ''ws_send_avg_s'' =
         (case map_of metrics ''ws_send_s'' of None \<Rightarrow> rolling_stats s ''ws_send_avg_s''
          | Some v \<Rightarrow> Some (ema_rule (rolling_stats s ''ws_send_avg_s'') v))
     \<and> rolling_stats s' ''decode_avg_s'' =
         (case map_of metrics ''decode_s'' of None \<Rightarrow> rolling_stats s ''decode_avg_s''
          | Some v \<Rightarrow> Some (ema_rule (rolling_stats s ''decode_avg_s'') v))
     \<and> rolling_stats s' ''latency_ms'' =
         (case map_of metrics ''latency_ms'' of None \<Rightarrow> rolling_stats s ''latency_ms''
          | Some v \<Rightarrow> Some (ema_rule (rolling_stats s ''latency_ms'') v))
     \<and> rolling_stats s' ''depth_fps'' =
         (let after_loop =
                (case map_of metrics ''depth_fps'' of None \<Rightarrow> rolling_stats s ''depth_fps''
                 | Some v \<Rightarrow> Some (ema_rule (rolling_stats s ''depth_fps'') v))
          in case map_of metrics ''total_s'' of
               None \<Rightarrow> after_loop
             | Some total_s \<Rightarrow>
                 if 0 < total_s then Some (ema_rule after_loop (1 / total_s)) else after_loop)
     \<and> rolling_stats s' ''drop_count'' =
         Some (d0 + (case map_of metrics ''dropped'' of None \<Rightarrow> 0 | Some v \<Rightarrow> v))
     \<and> ((case map_of metrics ''dropped'' of None \<Rightarrow> True | Some v \<Rightarrow> 0 \<le> v) \<longrightarrow>
          (\<exists>d1. rolling_stats s' ''drop_count'' = Some d1 \<and> d0 \<le> d1))"
proof -
  from dc have "rolling_stats s ''drop_count'' \<noteq> None" by simp
  with update_rolling_succeeds [of "rolling_stats s" "1 / 10" metrics]
  obtain rs where rs: "update_rolling (1 / 10) metrics (rolling_stats s) = Inr rs" by blast
  define s' where "s' = adjust_quality settings
      (s\<lparr>telemetry := telemetry s ++ map_of metrics,
         rolling_stats := update_fps (1 / 10) metrics rs\<rparr>)"
  have ok: "update_telemetry settings metrics s = Inr s'"
    by (simp add: update_telemetry_def Let_def rs s'_def)
  have r: "rolling_stats s' = update_fps (1 / 10) metrics rs"
    by (simp add: s'_def adjust_quality_rolling_stats)
  note e = update_rolling_ema [OF rs dist]
  have 1: "rolling_stats s' ''infer_avg_s'' =
         (case map_of metrics ''infer_s'' of None \<Rightarrow> rolling_stats s ''infer_avg_s''
          | Some v \<Rightarrow> Some (ema_rule (rolling_stats s ''infer_avg_s'') v))"
    unfolding r using e [OF rolling_target_cases(2)] by (simp add: update_fps_other)
  have 2: "rolling_stats s' ''queue_avg_s'' =
         (case map_of metrics ''queue_wait_s'' of None \<Rightarrow> rolling_stats s ''queue_avg_s''
          | Some v \<Rightarrow> Some (ema_rule (rolling_stats s ''queue_avg_s'') v))"
    unfolding r using e [OF rolling_target_cases(3)] by (simp add: update_fps_other)
  have 3: "rolling_stats s' ''ws_send_avg_s'' =
         (case map_of metrics ''ws_send_s'' of None \<Rightarrow> rolling_stats s ''ws_send_avg_s''
          | Some v \<Rightarrow> Some (ema_rule (rolling_stats s ''ws_send_avg_s'') v))"
    unfolding r using e [OF rolling_target_cases(4)] by (simp add: update_fps_other)
  have 4: "rolling_stats s' ''decode_avg_s'' =
         (case map_of metrics ''decode_s'' of None \<Rightarrow> rolling_stats s ''decode_avg_s''
          | Some v \<Rightarrow> Some (ema_rule (rolling_stats s ''decode_avg_s'') v))"
    unfolding r using e [OF rolling_target_cases(5)] by (simp add: update_fps_other)
  have 5: "rolling_stats s' ''latency_ms'' =
         (case map_of metrics ''latency_ms'' of None \<Rightarrow> rolling_stats s ''latency_ms''
          | Some v \<Rightarrow> Some (ema_rule (rolling_stats s ''latency_ms'') v))"
    unfolding r using e [OF rolling_target_cases(6)] by (simp add: update_fps_other)
  have 6: "rolling_stats s' ''depth_fps'' =
         (let after_loop =
                (case map_of metrics ''depth_fps'' of None \<Rightarrow> rolling_stats s ''depth_fps''
                 | Some v \<Rightarrow> Some (ema_rule (rolling_stats s ''depth_fps'') v))
          in case map_of metrics ''total_s'' of
               None \<Rightarrow> after_loop
             | Some total_s \<Rightarrow>
                 if 0 < total_s then Some (ema_rule after_loop (1 / total_s)) else after_loop)"
  proof -
    have d: "rs ''depth_fps'' =
        (case map_of metrics ''depth_fps'' of None \<Rightarrow> rolling_stats s ''depth_fps''
         | Some v \<Rightarrow> Some (ema_rule (rolling_stats s ''depth_fps'') v))"
      using e [OF rolling_target_cases(7)] by simp
    show ?thesis
      unfolding r update_fps_depth_fps Let_def d [symmetric] by (rule refl)
  qed
  have 7: "rolling_stats s' ''drop_count'' =
         Some (d0 + (case map_of metrics ''dropped'' of None \<Rightarrow> 0 | Some v \<Rightarrow> v))"
    unfolding r using update_rolling_dropped [OF rs dist dc] by (simp add: update_fps_other)
  have 8: "(case map_of metrics ''dropped'' of None \<Rightarrow> True | Some v \<Rightarrow> 0 \<le> v) \<longrightarrow>
          (\<exists>d1. rolling_stats s' ''drop_count'' = Some d1 \<and> d0 \<le> d1)"
    unfolding 7 by (simp split: option.splits)
  from ok 1 2 3 4 5 6 7 8 show ?thesis by blast
qed

lemma example_fps_rolling:
  "rolling_stats example_fps_session ''depth_fps'' = Some 5"
  "rolling_stats example_fps_session ''drop_count'' = Some 0"
  by (simp_all add: example_fps_session_def initial_rolling_stats_def)

lemma update_telemetry_only_total_s:
  "\<exists>s'. update_telemetry settings [(''total_s'', x)] s = Inr s'
       \<and> rolling_stats s' = update_fps (1 / 10) [(''total_s'', x)] (rolling_stats s)"
  by (simp add: update_telemetry_def Let_def adjust_quality_rolling_stats)

theorem update_telemetry_total_s_counterexample:
  "rolling_stats example_fps_session ''depth_fps'' = Some 5
 \<and> rolling_after default_settings [(''total_s'', 0)] example_fps_session ''depth_fps''
     = Inr (Some 5)
 \<and> rolling_after default_settings [(''total_s'', - 2)] example_fps_session ''depth_fps''
     = Inr (Some 5)
 \<and> ema_rule (Some 5) (1 / (- 2)) = 89 / 20"
proof (intro conjI)
  show "rolling_stats example_fps_session ''depth_fps'' = Some 5"
    by (rule example_fps_rolling(1))
  from update_telemetry_only_total_s [of default_settings 0 example_fps_session]
  show "rolling_after default_settings [(''total_s'', 0)] example_fps_session ''depth_fps''
     = Inr (Some 5)"
    by (auto simp: rolling_after_def update_fps_def example_fps_rolling)
  from update_telemetry_only_total_s [of default_settings "- 2" example_fps_session]
  show "rolling_after default_settings [(''total_s'', - 2)] example_fps_session ''depth_fps''
     = Inr (Some 5)"
    by (auto simp: rolling_after_def update_fps_def example_fps_rolling)
  show "ema_rule (Some 5) (1 / (- 2)) = 89 / 20"
    by (simp add: ema_rule_def)
qed

theorem update_telemetry_ema_witness:
  "\<exists>s'. update_telemetry default_settings
           [(''infer_s'', 1 / 4), (''total_s'', 1 / 2), (''dropped'', 3)] example_fps_session = Inr s'
      \<and> rolling_stats s' ''infer_avg_s'' = Some (1 / 4)
      \<and> rolling_stats s' ''depth_fps'' = Some (47 / 10)
      \<and> rolling_stats s' ''drop_count'' = Some 3"
proof -
  let ?m = "[(''infer_s'', 1 / 4), (''total_s'', 1 / 2), (''dropped'', 3 :: real)]"
  have d: "distinct (map fst ?m)" by simp
  have i: "rolling_stats example_fps_session ''infer_avg_s'' = Some 0"
    by (simp add: example_fps_session_def initial_rolling_stats_def)
  from update_telemetry_ema [OF d example_fps_rolling(2), of default_settings]
  obtain s' where s': "update_telemetry default_settings ?m example_fps_session = Inr s'"
    and a: "rolling_stats s' ''infer_avg_s'' =
         (case map_of ?m ''infer_s'' of None \<Rightarrow> rolling_stats example_fps_session ''infer_avg_s''
          | Some v \<Rightarrow> Some (ema_rule (rolling_stats example_fps_session ''infer_avg_s'') v))"
    and b: "rolling_stats s' ''depth_fps'' =
         (let after_loop =
                (case map_of ?m ''depth_fps'' of None \<Rightarrow> rolling_stats example_fps_session ''depth_fps''
                 | Some v \<Rightarrow> Some (ema_rule (rolling_stats example_fps_session ''depth_fps'') v))
          in case map_of ?m ''total_s'' of
               None \<Rightarrow> after_loop
             | Some total_s \<Rightarrow>
                 if 0 < total_s then Some (ema_rule after_loop (1 / total_s)) else after_loop)"
    and c: "rolling_stats s' ''drop_count'' =
         Some (0 + (case map_of ?m ''dropped'' of None \<Rightarrow> 0 | Some v \<Rightarrow> v))"
    by blast
  from a have a': "rolling_stats s' ''infer_avg_s'' = Some (1 / 4)"
    by (simp add: i ema_rule_def)
  from b have b': "rolling_stats s' ''depth_fps'' = Some (47 / 10)"
    by (simp add: example_fps_rolling ema_rule_def)
  from c have c': "rolling_stats s' ''drop_count'' = Some 3" by simp
  from s' a' b' c' show ?thesis by blast
qed

section \<open>Adaptive controller\<close>

lemma int_trunc_of_int: "int_trunc (real_of_int n) = n"
  by (simp add: int_trunc_def)

lemma quality_steps_nonempty: "quality_steps settings \<noteq> []"
  by (simp add: quality_steps_def Let_def)

lemma foldl_min_key:
  "foldl (\<lambda>best x. if f x < f best then x else best) b xs \<in> insert b (set xs)
 \<and> (\<forall>y \<in> insert b (set xs). f (foldl (\<lambda>best x. if f x < f best then x else best) b xs) \<le> (f y :: int))"
proof (induction xs arbitrary: b)
  case Nil
  then show ?case by simp
next
  case (Cons x xs)
  let ?b = "if f x < f b then x else b"
  let ?r = "foldl (\<lambda>best x. if f x < f best then x else best) ?b xs"
  from Cons.IH [of ?b] have mem: "?r \<in> insert ?b (set xs)"
    and le: "\<forall>y \<in> insert ?b (set xs). f ?r \<le> f y" by blast+
  have r: "foldl (\<lambda>best x. if f x < f best then x else best) b (x # xs) = ?r" by simp
  have b: "?b = x \<or> ?b = b" by simp
  from mem b have 1: "?r \<in> insert b (set (x # xs))" by auto
  from le have lb: "f ?r \<le> f ?b" by blast
  have "f ?b \<le> f x" "f ?b \<le> f b" by simp_all
  with lb have "f ?r \<le> f x" "f ?r \<le> f b" by linarith+
  with le have 2: "\<forall>y \<in> insert b (set (x # xs)). f ?r \<le> f y" by simp
  from 1 2 show ?case unfolding r by blast
qed

lemma py_min_key_in:
  assumes "xs \<noteq> []"
  shows "py_min_key f xs \<in> set xs" and "y \<in> set xs \<Longrightarrow> f (py_min_key f xs) \<le> (f y :: int)"
proof -
  from assms obtain b rest where xs: "xs = b # rest" by (cases xs) auto
  have p: "py_min_key f xs = foldl (\<lambda>best x. if f x < f best then x else best) b rest"
    by (simp add: py_min_key_def xs)
  have s: "set xs = insert b (set rest)" by (simp add: xs)
  from foldl_min_key [of f b rest] show "py_min_key f xs \<in> set xs"
    unfolding p s by blast
  from foldl_min_key [of f b rest] show "y \<in> set xs \<Longrightarrow> f (py_min_key f xs) \<le> f y"
    unfolding p s by blast
qed

lemma list_index_nth: "y \<in> set xs \<Longrightarrow> list_index xs y < length xs \<and> xs ! list_index xs y = y"
  by (induction xs) auto

lemma zip_tl_nth: "Suc i < length xs \<Longrightarrow> (xs ! i, xs ! Suc i) \<in> set (zip xs (tl xs))"
proof -
  assume a: "Suc i < length xs"
  then have "i < length (zip xs (tl xs))" by simp
  moreover have "zip xs (tl xs) ! i = (xs ! i, xs ! Suc i)" using a by (simp add: nth_tl)
  ultimately show ?thesis by (metis nth_mem)
qed


lemma adjust_quality_cooling:
  "0 < quality_cooldown s \<Longrightarrow>
     adjust_quality settings s = s\<lparr>quality_cooldown := quality_cooldown s - 1\<rparr>"
  by (simp add: adjust_quality_def)

lemma adjust_quality_active:
  fixes settings :: Settings and s :: VideoSession
  assumes act: "\<not> 0 < quality_cooldown s"
  defines "stored \<equiv> (case telemetry s ''quality_process_res'' of
                        None \<Rightarrow> real_of_int (depth_process_res settings) | Some v \<Rightarrow> v)"
  defines "cur \<equiv> int_trunc stored"
  defines "steps \<equiv> quality_steps settings"
  defines "idx \<equiv> list_index steps (py_min_key (\<lambda>x. \<bar>x - cur\<bar>) steps)"
  shows "\<exists>new_idx.
           (new_idx = idx \<or> (new_idx = idx + 1 \<and> idx + 1 < length steps) \<or> new_idx + 1 = idx)
         \<and> adjust_quality settings s =
             (if steps ! new_idx \<noteq> cur
              then s\<lparr>telemetry := (telemetry s)(''quality_process_res'' \<mapsto>
                                      real_of_int (steps ! new_idx)),
                     quality_cooldown := 60\<rparr>
              else s\<lparr>telemetry := (telemetry s)(''quality_process_res'' \<mapsto> stored)\<rparr>)"
proof -
  define infer_avg where
    "infer_avg = (case rolling_stats s ''infer_avg_s'' of None \<Rightarrow> 0 | Some v \<Rightarrow> v)"
  define queue_avg where
    "queue_avg = (case rolling_stats s ''queue_avg_s'' of None \<Rightarrow> 0 | Some v \<Rightarrow> v)"
  define latency where
    "latency = (case rolling_stats s ''latency_ms'' of None \<Rightarrow> 0 | Some v \<Rightarrow> v)"
  define new_idx where "new_idx =
      (if 1 / 5 < infer_avg \<or> 3 / 10 < queue_avg \<or> 500 < latency then
         (if int idx < int (length steps) - 1 then idx + 1 else idx)
       else if infer_avg < 2 / 25 \<and> queue_avg < 1 / 10 \<and> latency < 200 then
         (if 0 < idx then idx - 1 else idx)
       else idx)"
  have eq: "adjust_quality settings s =
             (if steps ! new_idx \<noteq> cur
              then s\<lparr>telemetry := (telemetry s)(''quality_process_res'' \<mapsto>
                                      real_of_int (steps ! new_idx)),
                     quality_cooldown := 60\<rparr>
              else s\<lparr>telemetry := (telemetry s)(''quality_process_res'' \<mapsto> stored)\<rparr>)"
    using act
    unfolding adjust_quality_def Let_def new_idx_def infer_avg_def queue_avg_def latency_def
      idx_def steps_def cur_def stored_def
    by simp
  have "new_idx = idx \<or> (new_idx = idx + 1 \<and> idx + 1 < length steps) \<or> new_idx + 1 = idx"
    unfolding new_idx_def by auto
  with eq show ?thesis by blast
qed


lemma adjust_quality_step:
  assumes inv: "controller_inv settings s"
  shows "controller_inv settings (adjust_quality settings s)
       \<and> telemetry (adjust_quality settings s) ''quality_process_res''
           = Some (real_of_int (process_res settings (adjust_quality settings s)))
       \<and> process_res settings (adjust_quality settings s) \<in> set (quality_steps settings)
       \<and> (0 < quality_cooldown s \<longrightarrow>
              process_res settings (adjust_quality settings s) = process_res settings s
            \<and> quality_cooldown (adjust_quality settings s) = quality_cooldown s - 1)
       \<and> (process_res settings (adjust_quality settings s) \<noteq> process_res settings s \<longrightarrow>
              quality_cooldown (adjust_quality settings s) = 60)
       \<and> (process_res settings s \<in> set (quality_steps settings) \<longrightarrow>
              no_or_unit_step (quality_steps settings) (process_res settings s)
                (process_res settings (adjust_quality settings s)))"
proof (cases "0 < quality_cooldown s")
  case True
  let ?s' = "adjust_quality settings s"
  have s': "?s' = s\<lparr>quality_cooldown := quality_cooldown s - 1\<rparr>"
    by (rule adjust_quality_cooling [OF True])
  from inv True obtain r where r: "r \<in> set (quality_steps settings)"
    "telemetry s ''quality_process_res'' = Some (real_of_int r)"
    by (auto simp: controller_inv_def split: option.splits)
  have p: "process_res settings s = r" by (simp add: process_res_def r int_trunc_of_int)
  have p': "process_res settings ?s' = r" by (simp add: s' process_res_def r int_trunc_of_int)
  have i: "controller_inv settings ?s'"
    using inv True by (simp add: s' controller_inv_def r)
  show ?thesis using i p p' r True
    by (simp add: no_or_unit_step_def) (simp add: s' r)
next
  case False
  let ?s' = "adjust_quality settings s"
  let ?steps = "quality_steps settings"
  define stored where "stored = (case telemetry s ''quality_process_res'' of
                        None \<Rightarrow> real_of_int (depth_process_res settings) | Some v \<Rightarrow> v)"
  define cur where "cur = int_trunc stored"
  define closest where "closest = py_min_key (\<lambda>x. \<bar>x - cur\<bar>) ?steps"
  define idx where "idx = list_index ?steps closest"
  from inv False have c0: "quality_cooldown s = 0" by (simp add: controller_inv_def)
  have st: "stored = real_of_int cur"
  proof (cases "telemetry s ''quality_process_res''")
    case None
    then show ?thesis by (simp add: stored_def cur_def int_trunc_of_int)
  next
    case (Some v)
    with inv obtain r where "v = real_of_int r" by (auto simp: controller_inv_def)
    with Some show ?thesis by (simp add: stored_def cur_def int_trunc_of_int)
  qed
  have p: "process_res settings s = cur"
    by (simp add: process_res_def cur_def stored_def)
  have cl: "closest \<in> set ?steps"
    unfolding closest_def by (rule py_min_key_in(1) [OF quality_steps_nonempty])
  from list_index_nth [OF cl] have ix: "idx < length ?steps" "?steps ! idx = closest"
    by (simp_all add: idx_def)
  from adjust_quality_active [OF False, of settings, folded stored_def, folded cur_def,
      folded closest_def, folded idx_def]
  obtain new_idx where
    ni: "new_idx = idx \<or> (new_idx = idx + 1 \<and> idx + 1 < length ?steps) \<or> new_idx + 1 = idx"
    and eq: "?s' = (if ?steps ! new_idx \<noteq> cur
              then s\<lparr>telemetry := (telemetry s)(''quality_process_res'' \<mapsto>
                                      real_of_int (?steps ! new_idx)),
                     quality_cooldown := 60\<rparr>
              else s\<lparr>telemetry := (telemetry s)(''quality_process_res'' \<mapsto> stored)\<rparr>)"
    by blast
  define new where "new = ?steps ! new_idx"
  from ni ix(1) have nl: "new_idx < length ?steps" by auto
  then have nm: "new \<in> set ?steps" by (simp add: new_def)
  have tel: "telemetry ?s' ''quality_process_res'' = Some (real_of_int new)"
    unfolding eq using st by (simp add: new_def)
  have p': "process_res settings ?s' = new"
    by (simp add: process_res_def tel int_trunc_of_int)
  have cd: "quality_cooldown ?s' = (if new \<noteq> cur then 60 else 0)"
    unfolding eq using c0 by (simp add: new_def)
  have rs: "rolling_stats ?s' = rolling_stats s"
    by (rule adjust_quality_rolling_stats)
  have i: "controller_inv settings ?s'"
    using inv nm by (simp add: controller_inv_def tel cd rs)
  have unit: "no_or_unit_step ?steps cur new" if mem: "cur \<in> set ?steps"
  proof -
    from py_min_key_in(2) [OF quality_steps_nonempty mem, of "\<lambda>x. \<bar>x - cur\<bar>"]
    have "closest = cur" by (simp add: closest_def)
    with ix have cur: "?steps ! idx = cur" by simp
    from ni show ?thesis
    proof (elim disjE conjE)
      assume "new_idx = idx"
      with cur show ?thesis by (simp add: no_or_unit_step_def new_def)
    next
      assume a: "new_idx = idx + 1" "idx + 1 < length ?steps"
      then have "(?steps ! idx, ?steps ! Suc idx) \<in> set (zip ?steps (tl ?steps))"
        by (intro zip_tl_nth) simp
      with a cur show ?thesis by (simp add: no_or_unit_step_def unit_step_def new_def)
    next
      assume a: "new_idx + 1 = idx"
      with ix(1) have "Suc new_idx < length ?steps" by simp
      then have "(?steps ! new_idx, ?steps ! Suc new_idx) \<in> set (zip ?steps (tl ?steps))"
        by (rule zip_tl_nth)
      moreover from a have "Suc new_idx = idx" by simp
      ultimately show ?thesis using cur
        by (simp add: no_or_unit_step_def unit_step_def new_def)
    qed
  qed
  show ?thesis
    using i tel nm False cd unit unfolding p p' by simp
qed


lemma update_rolling_keeps_drop_count:
  "update_rolling alpha ms rs = Inr rs' \<Longrightarrow> rs ''drop_count'' \<noteq> None \<Longrightarrow>
     rs' ''drop_count'' \<noteq> None"
proof (induction ms arbitrary: rs)
  case Nil
  then show ?case by simp
next
  case (Cons item ms)
  obtain key val where item: "item = (key, val)" by (cases item)
  show ?case
  proof (cases "rolling_target key")
    case None
    with Cons.prems(1) have "update_rolling alpha ms rs = Inr rs'"
      by (simp add: item update_rolling_Cons del: update_rolling.simps)
    from Cons.IH [OF this Cons.prems(2)] show ?thesis .
  next
    case (Some t)
    from Cons.prems(1) Some obtain x where run: "update_rolling alpha ms (rs(t \<mapsto> x)) = Inr rs'"
      by (auto simp: item update_rolling_Cons simp del: update_rolling.simps
          split: if_splits option.splits)
    have "(rs(t \<mapsto> x)) ''drop_count'' \<noteq> None" using Cons.prems(2) by simp
    from Cons.IH [OF run this] show ?thesis .
  qed
qed

lemma update_telemetry_step:
  assumes inv: "controller_inv settings s"
    and key: "''quality_process_res'' \<notin> fst ` set m"
  shows "\<exists>s'. update_telemetry settings m s = Inr s'
       \<and> controller_inv settings s'
       \<and> telemetry s' ''quality_process_res'' = Some (real_of_int (process_res settings s'))
       \<and> process_res settings s' \<in> set (quality_steps settings)
       \<and> (0 < quality_cooldown s \<longrightarrow>
              process_res settings s' = process_res settings s
            \<and> quality_cooldown s' = quality_cooldown s - 1)
       \<and> (process_res settings s' \<noteq> process_res settings s \<longrightarrow> quality_cooldown s' = 60)
       \<and> (process_res settings s \<in> set (quality_steps settings) \<longrightarrow>
              no_or_unit_step (quality_steps settings) (process_res settings s)
                (process_res settings s'))"
proof -
  from inv have dc: "rolling_stats s ''drop_count'' \<noteq> None" by (simp add: controller_inv_def)
  with update_rolling_succeeds [of "rolling_stats s" "1 / 10" m]
  obtain rs where rs: "update_rolling (1 / 10) m (rolling_stats s) = Inr rs" by blast
  define mid where "mid = s\<lparr>telemetry := telemetry s ++ map_of m,
      rolling_stats := update_fps (1 / 10) m rs\<rparr>"
  have ok: "update_telemetry settings m s = Inr (adjust_quality settings mid)"
    by (simp add: update_telemetry_def Let_def rs mid_def)
  from key have "''quality_process_res'' \<notin> dom (map_of m)"
    by (simp add: dom_map_of_conv_image_fst)
  then have t: "telemetry mid ''quality_process_res'' = telemetry s ''quality_process_res''"
    by (simp add: mid_def map_add_dom_app_simps)
  have c: "quality_cooldown mid = quality_cooldown s" by (simp add: mid_def)
  have p: "process_res settings mid = process_res settings s"
    by (simp add: process_res_def t)
  have "rolling_stats mid ''drop_count'' \<noteq> None"
    using update_rolling_keeps_drop_count [OF rs dc] by (simp add: mid_def update_fps_other)
  with inv have "controller_inv settings mid"
    by (simp add: controller_inv_def t c split: option.splits)
  from adjust_quality_step [OF this] ok show ?thesis
    unfolding p c by blast
qed

lemma update_telemetry_all_inv:
  assumes "controller_inv settings s"
    and "\<forall>m \<in> set ms. ''quality_process_res'' \<notin> fst ` set m"
  shows "\<exists>s'. update_telemetry_all settings ms s = Inr s'
       \<and> controller_inv settings s'
       \<and> (ms \<noteq> [] \<longrightarrow>
            telemetry s' ''quality_process_res'' = Some (real_of_int (process_res settings s'))
          \<and> process_res settings s' \<in> set (quality_steps settings))"
  using assms
proof (induction ms arbitrary: s rule: rev_induct)
  case Nil
  then show ?case by simp
next
  case (snoc m ms)
  from snoc.IH [OF snoc.prems(1)] snoc.prems(2)
  obtain s1 where s1: "update_telemetry_all settings ms s = Inr s1" "controller_inv settings s1"
    by auto
  from snoc.prems(2) have "''quality_process_res'' \<notin> fst ` set m" by simp
  from update_telemetry_step [OF s1(2) this]
  obtain s2 where s2: "update_telemetry settings m s1 = Inr s2" "controller_inv settings s2"
    "telemetry s2 ''quality_process_res'' = Some (real_of_int (process_res settings s2))"
    "process_res settings s2 \<in> set (quality_steps settings)" by blast
  have "update_telemetry_all settings (ms @ [m]) s = Inr s2"
    using s1(1) s2(1)
  proof (induction ms arbitrary: s)
    case Nil
    then show ?case by simp
  next
    case (Cons a ms)
    then show ?case by (auto split: sum.splits)
  qed
  with s2 show ?case by simp
qed

lemma update_telemetry_all_append:
  "update_telemetry_all settings (ms1 @ ms2) s =
     (case update_telemetry_all settings ms1 s of
        Inl e \<Rightarrow> Inl e
      | Inr s1 \<Rightarrow> update_telemetry_all settings ms2 s1)"
  by (induction ms1 arbitrary: s) (auto split: sum.splits)

lemma cooldown_run:
  assumes "controller_inv settings s"
    and "\<forall>m \<in> set ms. ''quality_process_res'' \<notin> fst ` set m"
    and "int (length ms) \<le> quality_cooldown s"
  shows "\<exists>s'. update_telemetry_all settings ms s = Inr s'
       \<and> quality_cooldown s' = quality_cooldown s - int (length ms)
       \<and> process_res settings s' = process_res settings s
       \<and> controller_inv settings s'"
  using assms
proof (induction ms arbitrary: s)
  case Nil
  then show ?case by simp
next
  case (Cons m ms)
  from Cons.prems(3) have pos: "0 < quality_cooldown s" by simp
  from Cons.prems(2) have k: "''quality_process_res'' \<notin> fst ` set m" by simp
  from update_telemetry_step [OF Cons.prems(1) k] pos
  obtain s1 where s1: "update_telemetry settings m s = Inr s1" "controller_inv settings s1"
    "process_res settings s1 = process_res settings s"
    "quality_cooldown s1 = quality_cooldown s - 1" by blast
  have rest: "\<forall>m \<in> set ms. ''quality_process_res'' \<notin> fst ` set m" using Cons.prems(2) by simp
  have len: "int (length ms) \<le> quality_cooldown s1" using Cons.prems(3) s1(4) by simp
  from Cons.IH [OF s1(2) rest len] s1 show ?case by auto
qed

lemma VideoSession_init_inv:
  "VideoSession_init settings = Inr s0 \<Longrightarrow>
     controller_inv settings s0 \<and> process_res settings s0 = depth_process_res settings"
  by (auto simp: VideoSession_init_def controller_inv_def process_res_def
      initial_rolling_stats_def int_trunc_of_int split: if_splits)

lemma quality_steps_ladder:
  "320 \<le> depth_process_res settings \<Longrightarrow>
     quality_steps settings = filter (\<lambda>r. r \<le> depth_process_res settings) all_steps"
  "depth_process_res settings < 320 \<Longrightarrow> quality_steps settings = [depth_process_res settings]"
  by (simp_all add: quality_steps_def all_steps_def Let_def)

lemma on_ladder_in_steps:
  "depth_process_res settings \<in> set all_steps \<Longrightarrow>
     depth_process_res settings \<in> set (quality_steps settings)"
  by (auto simp: quality_steps_def Let_def filter_empty_conv)

text \<open>
  C5, as the code has it. A fresh session receives telemetry updates, none of which
  carries the key \<open>quality_process_res\<close>. Every update returns. After the first update
  the stored \<open>quality_process_res\<close> is always an entry of \<open>quality_steps\<close>: the ladder
  \<open>[960, 720, 640, 512, 480, 384, 320]\<close> filtered to entries not above the configured
  \<open>depth_process_res\<close>, or the configured value alone when that is below 320. An update
  moves the resolution the pipeline reads by at most one position on that list, provided
  the resolution before the update is on the list (which holds after the first update,
  and from the start when the configured value is a ladder entry). Between two updates
  that change the resolution there are at least 60 updates that do not.
\<close>

theorem controller_steps_and_cooldown:
  assumes init: "VideoSession_init settings = Inr s0"
    and keys: "\<forall>metrics \<in> set (ms1 @ [m] @ ms2 @ [m']).
                 ''quality_process_res'' \<notin> fst ` set metrics"
  shows "\<exists>s1 s2 s3 s4.
           update_telemetry_all settings ms1 s0 = Inr s1
         \<and> update_telemetry settings m s1 = Inr s2
         \<and> update_telemetry_all settings ms2 s2 = Inr s3
         \<and> update_telemetry settings m' s3 = Inr s4
         \<and> telemetry s2 ''quality_process_res'' = Some (real_of_int (process_res settings s2))
         \<and> process_res settings s2 \<in> set (quality_steps settings)
         \<and> (320 \<le> depth_process_res settings \<longrightarrow>
               quality_steps settings = filter (\<lambda>r. r \<le> depth_process_res settings) all_steps)
         \<and> (depth_process_res settings < 320 \<longrightarrow>
               quality_steps settings = [depth_process_res settings])
         \<and> (ms1 \<noteq> [] \<or> depth_process_res settings \<in> set all_steps \<longrightarrow>
               no_or_unit_step (quality_steps settings)
                 (process_res settings s1) (process_res settings s2))
         \<and> (process_res settings s2 \<noteq> process_res settings s1
              \<and> process_res settings s4 \<noteq> process_res settings s3 \<longrightarrow> 60 \<le> length ms2)"
proof -
  let ?K = "''quality_process_res''"
  from keys have k1: "\<forall>x \<in> set ms1. ?K \<notin> fst ` set x" and km: "?K \<notin> fst ` set m"
    and k2: "\<forall>x \<in> set ms2. ?K \<notin> fst ` set x" and km': "?K \<notin> fst ` set m'" by simp_all
  from VideoSession_init_inv [OF init]
  have i0: "controller_inv settings s0" and p0: "process_res settings s0 = depth_process_res settings"
    by simp_all
  from update_telemetry_all_inv [OF i0 k1]
  obtain s1 where s1: "update_telemetry_all settings ms1 s0 = Inr s1" "controller_inv settings s1"
    and s1': "ms1 \<noteq> [] \<longrightarrow> process_res settings s1 \<in> set (quality_steps settings)" by blast
  from update_telemetry_step [OF s1(2) km]
  obtain s2 where s2: "update_telemetry settings m s1 = Inr s2" "controller_inv settings s2"
    "telemetry s2 ?K = Some (real_of_int (process_res settings s2))"
    "process_res settings s2 \<in> set (quality_steps settings)"
    and ch2: "process_res settings s2 \<noteq> process_res settings s1 \<longrightarrow> quality_cooldown s2 = 60"
    and u2: "process_res settings s1 \<in> set (quality_steps settings) \<longrightarrow>
              no_or_unit_step (quality_steps settings) (process_res settings s1)
                (process_res settings s2)" by blast
  from update_telemetry_all_inv [OF s2(2) k2]
  obtain s3 where s3: "update_telemetry_all settings ms2 s2 = Inr s3" "controller_inv settings s3"
    by blast
  from update_telemetry_step [OF s3(2) km']
  obtain s4 where s4: "update_telemetry settings m' s3 = Inr s4"
    and cool: "0 < quality_cooldown s3 \<longrightarrow> process_res settings s4 = process_res settings s3"
    by blast
  have unit: "ms1 \<noteq> [] \<or> depth_process_res settings \<in> set all_steps \<longrightarrow>
               no_or_unit_step (quality_steps settings)
                 (process_res settings s1) (process_res settings s2)"
  proof
    assume a: "ms1 \<noteq> [] \<or> depth_process_res settings \<in> set all_steps"
    have "process_res settings s1 \<in> set (quality_steps settings)"
    proof (cases "ms1 = []")
      case True
      with s1(1) have "s1 = s0" by simp
      with a True p0 on_ladder_in_steps show ?thesis by simp
    next
      case False
      with s1' show ?thesis by simp
    qed
    with u2 show "no_or_unit_step (quality_steps settings)
                 (process_res settings s1) (process_res settings s2)" by simp
  qed
  have gap: "process_res settings s2 \<noteq> process_res settings s1
              \<and> process_res settings s4 \<noteq> process_res settings s3 \<longrightarrow> 60 \<le> length ms2"
  proof (intro impI, elim conjE)
    assume c2: "process_res settings s2 \<noteq> process_res settings s1"
      and c4: "process_res settings s4 \<noteq> process_res settings s3"
    from ch2 c2 have cd: "quality_cooldown s2 = 60" by simp
    show "60 \<le> length ms2"
    proof (rule ccontr)
      assume "\<not> 60 \<le> length ms2"
      then have short: "int (length ms2) \<le> quality_cooldown s2" and lt: "length ms2 < 60"
        by (simp_all add: cd)
      from cooldown_run [OF s2(2) k2 short] s3(1)
      have "quality_cooldown s3 = quality_cooldown s2 - int (length ms2)" by simp
      with cd lt have "0 < quality_cooldown s3" by simp
      with cool c4 show False by simp
    qed
  qed
  from s1(1) s2(1,3,4) s3(1) s4 unit gap quality_steps_ladder [of settings]
  show ?thesis by blast
qed

theorem controller_off_ladder_counterexample:
  "stored_res_after settings_256 [[(''total_s'', 1 / 10)]] = Inr (Some 256)
 \<and> filter (\<lambda>r. r \<le> depth_process_res settings_256) all_steps = []
 \<and> process_res_after settings_700 [] = Inr 700
 \<and> process_res_after settings_700 [[(''latency_ms'', 600)]] = Inr 512
 \<and> filter (\<lambda>r. r \<le> depth_process_res settings_700) all_steps = [640, 512, 480, 384, 320]
 \<and> \<not> no_or_unit_step [640, 512, 480, 384, 320] 700 512"
  by (intro conjI; code_simp)

lemma example_controller_runs:
  "process_res_after default_settings [] = Inr 640"
  "process_res_after default_settings [[(''latency_ms'', 600)]] = Inr 512"
  "process_res_after default_settings ([(''latency_ms'', 600)] # replicate 60 []) = Inr 512"
  "process_res_after default_settings
     ([(''latency_ms'', 600)] # (replicate 60 [] @ [[(''latency_ms'', 600)]])) = Inr 480"
  by code_simp+

theorem controller_steps_and_cooldown_witness:
  "process_res_after default_settings [] = Inr 640
 \<and> process_res_after default_settings [[(''latency_ms'', 600)]] = Inr 512
 \<and> process_res_after default_settings ([(''latency_ms'', 600)] # replicate 60 []) = Inr 512
 \<and> process_res_after default_settings
      ([(''latency_ms'', 600)] # (replicate 60 [] @ [[(''latency_ms'', 600)]])) = Inr 480
 \<and> no_or_unit_step (quality_steps default_settings) 640 512
 \<and> 60 \<le> length (replicate 60 ([] :: (string \<times> real) list))"
proof -
  let ?st = default_settings
  let ?m = "[(''latency_ms'', 600 :: real)]"
  let ?ms2 = "replicate 60 ([] :: (string \<times> real) list)"
  obtain s0 where init: "VideoSession_init ?st = Inr s0"
    by (simp add: VideoSession_init_def default_settings_def)
  have keys: "\<forall>metrics \<in> set ([] @ [?m] @ ?ms2 @ [?m]).
                 ''quality_process_res'' \<notin> fst ` set metrics" by simp
  from controller_steps_and_cooldown [OF init keys]
  obtain s1 s2 s3 s4 where
    r1: "update_telemetry_all ?st [] s0 = Inr s1"
    and r2: "update_telemetry ?st ?m s1 = Inr s2"
    and r3: "update_telemetry_all ?st ?ms2 s2 = Inr s3"
    and r4: "update_telemetry ?st ?m s3 = Inr s4"
    and unit: "[] \<noteq> ([] :: (string \<times> real) list list) \<or> depth_process_res ?st \<in> set all_steps \<longrightarrow>
               no_or_unit_step (quality_steps ?st) (process_res ?st s1) (process_res ?st s2)"
    and gap: "process_res ?st s2 \<noteq> process_res ?st s1
              \<and> process_res ?st s4 \<noteq> process_res ?st s3 \<longrightarrow> 60 \<le> length ?ms2"
    by blast
  from r1 have s10: "s1 = s0" by simp
  have f1: "fresh_run ?st [] = Inr s1" by (simp add: fresh_run_def init s10)
  have f2: "fresh_run ?st [?m] = Inr s2" using r2 by (simp add: fresh_run_def init s10)
  have f3: "fresh_run ?st (?m # ?ms2) = Inr s3"
    using r2 r3 unfolding fresh_run_def init s10 by simp
  have u3: "update_telemetry_all ?st (?m # ?ms2) s0 = Inr s3" using r2 r3 s10 by simp
  have u4: "update_telemetry_all ?st ((?m # ?ms2) @ [?m]) s0 = Inr s4"
    unfolding update_telemetry_all_append u3 using r4 by simp
  have f4: "fresh_run ?st (?m # (?ms2 @ [?m])) = Inr s4"
    unfolding fresh_run_def init using u4 by simp
  have p1: "process_res ?st s1 = 640"
    using example_controller_runs(1) by (simp add: process_res_after_def f1)
  have p2: "process_res ?st s2 = 512"
    using example_controller_runs(2) by (simp add: process_res_after_def f2)
  have p3: "process_res ?st s3 = 512"
    using example_controller_runs(3) by (simp add: process_res_after_def f3)
  have p4: "process_res ?st s4 = 480"
    using example_controller_runs(4) by (simp add: process_res_after_def f4)
  have "depth_process_res ?st \<in> set all_steps"
    by (simp add: default_settings_def all_steps_def)
  with unit have u: "no_or_unit_step (quality_steps ?st) 640 512" unfolding p1 p2 by blast
  from gap have g: "60 \<le> length ?ms2" unfolding p1 p2 p3 p4 by simp
  from example_controller_runs u g show ?thesis by (intro conjI)
qed

section \<open>Frame decoder\<close>







end
